theory Spec2Isabelle
  imports Complex_Main "HOL-Library.AList" "HOL-Library.Sublist"
begin

section \<open>Data model\<close>

text \<open>
  Tokens (protocol messages and responses) are strings. A node of the model tree is named
  by its path, the tuple of tokens leading to it from the root. Model identifiers are
  opaque handles; an implementation is a pair of a name and a version.
  Python's float arithmetic is idealised by the reals.
\<close>

type_synonym token = string
type_synonym path = "token list"
type_synonym model = nat
type_synonym implementation = "string \<times> string"

text \<open>The Python exceptions that the modelled code can raise.\<close>

datatype error = KeyError | IndexError | ValueError | ZeroDivisionError | TransportError

text \<open>
  Modelled from the spec: the model tree class (its module is not part of the sources at
  hand). Section 9 of the specification describes a flat mapping from path to node record;
  the node list keeps the insertion order that child enumeration follows. A subtree is a
  view on the same node list with another root.
\<close>

record model_tree =
  nodes :: "(path \<times> model set) list"
  root :: path
  model_mapping :: "model \<Rightarrow> implementation set"

text \<open>Modelled from the spec: \<open>tree[node]\<close>, the children of a node in stable order;
  an absent node is a \<open>KeyError\<close>.\<close>

definition children :: "model_tree \<Rightarrow> path \<Rightarrow> path list" where
  "children tree node =
     filter (\<lambda>q. q \<noteq> [] \<and> butlast q = node) (map fst (nodes tree))"

definition getitem :: "model_tree \<Rightarrow> path \<Rightarrow> error + path list" where
  "getitem tree node =
     (case map_of (nodes tree) node of
        None \<Rightarrow> Inl KeyError
      | Some _ \<Rightarrow> Inr (children tree node))"

text \<open>Modelled from the spec: \<open>tree.subtree(node)\<close>, the view restricted to the node
  and its descendants.\<close>

definition subtree :: "model_tree \<Rightarrow> path \<Rightarrow> model_tree" where
  "subtree tree node =
     tree\<lparr>nodes := filter (\<lambda>(p, _). prefix node p) (nodes tree), root := node\<rparr>"

text \<open>Modelled from the spec: \<open>tree.models\<close>, the candidate set carried by the root of
  the tree (or of the view); an empty tree carries no model.\<close>

definition models :: "model_tree \<Rightarrow> model set" where
  "models tree = (case map_of (nodes tree) (root tree) of None \<Rightarrow> {} | Some ms \<Rightarrow> ms)"

text \<open>Modelled from the spec: \<open>len(tree)\<close>, the number of nodes.\<close>

definition len :: "model_tree \<Rightarrow> nat" where
  "len tree = length (nodes tree)"

text \<open>Modelled from the spec: \<open>tree.leaves\<close>, the nodes without out-edges.\<close>

definition is_leaf :: "model_tree \<Rightarrow> path \<Rightarrow> bool" where
  "is_leaf tree node = (children tree node = [])"

definition leaves :: "model_tree \<Rightarrow> path list" where
  "leaves tree = filter (is_leaf tree) (map fst (nodes tree))"

section \<open>Weight functions\<close>

text \<open>The weight functions return integers, and \<open>_tree_weight\<close> adds them exactly over
  the models of the tree. They are typed as reals, which hold every integer as it is,
  because the selectors divide by them.\<close>

definition model_weight_equal :: "implementation set \<Rightarrow> real" where
  "model_weight_equal _ = 1"

definition model_weight_count :: "implementation set \<Rightarrow> real" where
  "model_weight_count implementations = real (card implementations)"

definition tree_weight ::
  "model_tree \<Rightarrow> (model \<Rightarrow> implementation set) \<Rightarrow> (implementation set \<Rightarrow> real) \<Rightarrow> real" where
  "tree_weight tree mapping weight_function =
     (\<Sum>model \<in> models tree. weight_function (mapping model))"

section \<open>Input selectors\<close>

fun map_err :: "('a \<Rightarrow> error + 'b) \<Rightarrow> 'a list \<Rightarrow> error + 'b list" where
  "map_err f [] = Inr []"
| "map_err f (x # xs) =
     (case f x of
        Inl e \<Rightarrow> Inl e
      | Inr y \<Rightarrow> (case map_err f xs of Inl e \<Rightarrow> Inl e | Inr ys \<Rightarrow> Inr (y # ys)))"

text \<open>
  Python's floats are IEEE 754 binary64 numbers: an operation returns the exact result
  rounded to the nearest number whose significand has 53 bits, a tie going to the even
  significand. The range of the exponent is left unbounded: the selectors compute with
  quotients of weights, between 0 and 1 and far from the ends of the format.
\<close>

definition rne :: "real \<Rightarrow> int" where
  "rne x =
     (let f = \<lfloor>x\<rfloor>
      in if x - of_int f < 1 / 2 then f
         else if 1 / 2 < x - of_int f then f + 1
         else if even f then f else f + 1)"

definition round64 :: "real \<Rightarrow> real" where
  "round64 x =
     (if x = 0 then 0
      else (let e = \<lfloor>log 2 \<bar>x\<bar>\<rfloor>
            in of_int (rne (x * 2 powi (52 - e))) * 2 powi (e - 52)))"

text \<open>The operations of the selectors, with the exceptions they raise. The weights are
  integers, whose quotient \<open>x / total_weight\<close> Python rounds once; \<open>** 2\<close> and
  \<open>math.log\<close> are functions of the C library, taken as correctly rounded; \<open>sum\<close>
  starts from 0 and adds from the left, one rounded addition per item (the interpreters
  that still ship \<open>distutils\<close>, which the module imports, sum floats in this way).\<close>

definition py_div :: "real \<Rightarrow> real \<Rightarrow> error + real" where
  "py_div x y = (if y = 0 then Inl ZeroDivisionError else Inr (round64 (x / y)))"

definition py_log :: "real \<Rightarrow> error + real" where
  "py_log x = (if x \<le> 0 then Inl ValueError else Inr (round64 (ln x)))"

definition py_square :: "real \<Rightarrow> real" where
  "py_square x = round64 (x * x)"

definition py_mul :: "real \<Rightarrow> real \<Rightarrow> real" where
  "py_mul x y = round64 (x * y)"

definition py_add :: "real \<Rightarrow> real \<Rightarrow> real" where
  "py_add x y = round64 (x + y)"

definition py_sub :: "real \<Rightarrow> real \<Rightarrow> real" where
  "py_sub x y = round64 (x - y)"

definition py_sum :: "real list \<Rightarrow> real" where
  "py_sum xs = foldl py_add 0 xs"

text \<open>\<open>min(items, key=...)\<close> and \<open>max(items, key=...)\<close> keep the first extremal item.\<close>

fun min_by :: "('a \<Rightarrow> 'k::linorder) \<Rightarrow> 'a \<Rightarrow> 'a list \<Rightarrow> 'a" where
  "min_by key best [] = best"
| "min_by key best (x # xs) = min_by key (if key x < key best then x else best) xs"

fun max_by :: "('a \<Rightarrow> 'k::linorder) \<Rightarrow> 'a \<Rightarrow> 'a list \<Rightarrow> 'a" where
  "max_by key best [] = best"
| "max_by key best (x # xs) = max_by key (if key best < key x then x else best) xs"

definition always_first_selector ::
  "model_tree \<Rightarrow> path \<Rightarrow> (implementation set \<Rightarrow> real) \<Rightarrow> error + path" where
  "always_first_selector tree current_node weight_function =
     (case getitem tree current_node of
        Inl e \<Rightarrow> Inl e
      | Inr [] \<Rightarrow> Inl IndexError
      | Inr (n # _) \<Rightarrow> Inr n)"

definition output_weights ::
  "model_tree \<Rightarrow> (implementation set \<Rightarrow> real) \<Rightarrow> path \<Rightarrow> error + real list" where
  "output_weights tree weight_function input_node =
     (case getitem tree input_node of
        Inl e \<Rightarrow> Inl e
      | Inr output_nodes \<Rightarrow>
          Inr (map (\<lambda>output_node.
                 tree_weight (subtree tree output_node) (model_mapping tree) weight_function)
               output_nodes))"

definition gini_impurity ::
  "model_tree \<Rightarrow> (implementation set \<Rightarrow> real) \<Rightarrow> real \<Rightarrow> path \<Rightarrow> error + real" where
  "gini_impurity tree weight_function total_weight input_node =
     (case output_weights tree weight_function input_node of
        Inl e \<Rightarrow> Inl e
      | Inr weights \<Rightarrow>
          (case map_err (\<lambda>x. case py_div x total_weight of
                                Inl e \<Rightarrow> Inl e | Inr q \<Rightarrow> Inr (py_square q)) weights of
             Inl e \<Rightarrow> Inl e
           | Inr squares \<Rightarrow> Inr (py_sub 1 (py_sum squares))))"

definition gini_selector ::
  "model_tree \<Rightarrow> path \<Rightarrow> (implementation set \<Rightarrow> real) \<Rightarrow> error + path" where
  "gini_selector tree current_node weight_function =
     (let total_weight =
            tree_weight (subtree tree current_node) (model_mapping tree) weight_function
      in case getitem tree current_node of
           Inl e \<Rightarrow> Inl e
         | Inr input_nodes \<Rightarrow>
             (case map_err (\<lambda>input_node.
                      case gini_impurity tree weight_function total_weight input_node of
                        Inl e \<Rightarrow> Inl e | Inr v \<Rightarrow> Inr (input_node, v)) input_nodes of
                Inl e \<Rightarrow> Inl e
              | Inr entries \<Rightarrow>
                  (let impurities = fold (\<lambda>(k, v). AList.update k v) entries []
                   in if impurities = [] then Inl ValueError
                      else
                        (let maximum_impurity = Max (set (map snd impurities));
                             candidate_inputs =
                               map fst (filter (\<lambda>(node, value). value = maximum_impurity)
                                          impurities)
                         in if length candidate_inputs > 1
                            then
                              (let subtree_sizes =
                                     fold (\<lambda>node. AList.update node (len (subtree tree node)))
                                       candidate_inputs []
                               in Inr (fst (min_by snd (hd subtree_sizes) (tl subtree_sizes))))
                            else Inr (hd candidate_inputs)))))"

definition entropy_metric ::
  "model_tree \<Rightarrow> (implementation set \<Rightarrow> real) \<Rightarrow> real \<Rightarrow> path \<Rightarrow> error + real" where
  "entropy_metric tree weight_function total_weight input_node =
     (case output_weights tree weight_function input_node of
        Inl e \<Rightarrow> Inl e
      | Inr weights \<Rightarrow>
          (case map_err (\<lambda>x. case py_div x total_weight of
                                Inl e \<Rightarrow> Inl e
                              | Inr q \<Rightarrow> (case py_log q of
                                           Inl e \<Rightarrow> Inl e | Inr l \<Rightarrow> Inr (py_mul q l))) weights of
             Inl e \<Rightarrow> Inl e
           | Inr terms \<Rightarrow> Inr (- 1 * py_sum terms)))"

definition entropy_selector ::
  "model_tree \<Rightarrow> path \<Rightarrow> (implementation set \<Rightarrow> real) \<Rightarrow> error + path" where
  "entropy_selector tree current_node weight_function =
     (let total_weight =
            tree_weight (subtree tree current_node) (model_mapping tree) weight_function
      in case getitem tree current_node of
           Inl e \<Rightarrow> Inl e
         | Inr input_nodes \<Rightarrow>
             (case map_err (\<lambda>input_node.
                      case entropy_metric tree weight_function total_weight input_node of
                        Inl e \<Rightarrow> Inl e | Inr v \<Rightarrow> Inr (input_node, v)) input_nodes of
                Inl e \<Rightarrow> Inl e
              | Inr [] \<Rightarrow> Inl ValueError
              | Inr (info # input_info) \<Rightarrow> Inr (fst (max_by snd info input_info))))"

text \<open>\<open>random.choice\<close> is modelled by an oracle that picks an index into the list of
  candidates; a selector is one of the four strategies.\<close>

definition random_selector ::
  "(path list \<Rightarrow> nat) \<Rightarrow> model_tree \<Rightarrow> path \<Rightarrow> (implementation set \<Rightarrow> real) \<Rightarrow> error + path" where
  "random_selector choice tree current_node weight_function =
     (case getitem tree current_node of
        Inl e \<Rightarrow> Inl e
      | Inr [] \<Rightarrow> Inl IndexError
      | Inr (n # ns) \<Rightarrow> Inr ((n # ns) ! (choice (n # ns) mod length (n # ns))))"

datatype strategy = RandomSel "path list \<Rightarrow> nat" | FirstSel | GiniSel | EntropySel

fun select ::
  "strategy \<Rightarrow> model_tree \<Rightarrow> path \<Rightarrow> (implementation set \<Rightarrow> real) \<Rightarrow> error + path" where
  "select (RandomSel choice) = random_selector choice"
| "select FirstSel = always_first_selector"
| "select GiniSel = gini_selector"
| "select EntropySel = entropy_selector"

section \<open>Rounding\<close>

text \<open>The rounded value is half a unit in the last place away from the exact one at
  most, and is computed from the binary exponent of the exact value.\<close>

lemma rne_close: "\<bar>of_int (rne x) - x\<bar> \<le> 1 / 2"
  unfolding rne_def Let_def by (auto simp: abs_if) linarith+

lemma round64_eval:
  assumes "2 powi e \<le> \<bar>x\<bar>" and "\<bar>x\<bar> < 2 powi (e + 1)"
  shows "round64 x = of_int (rne (x * 2 powi (52 - e))) * 2 powi (e - 52)"
proof -
  have pos: "0 < \<bar>x\<bar>" using assms(1) by (smt (verit) zero_less_power_int)
  have a: "2 powr (of_int e) \<le> \<bar>x\<bar>"
    using assms(1) by (simp add: powr_real_of_int')
  have "\<bar>x\<bar> < 2 powr (of_int (e + 1))"
    using assms(2) by (subst powr_real_of_int') simp_all
  then have b: "\<bar>x\<bar> < 2 powr (of_int e + 1)" by simp
  have "\<lfloor>log 2 \<bar>x\<bar>\<rfloor> = e"
    using a b pos by (simp add: floor_log_eq_powr_iff)
  then show ?thesis using pos by (simp add: round64_def Let_def)
qed

lemma round64_close:
  assumes "\<bar>x\<bar> \<le> B"
  shows "\<bar>round64 x - x\<bar> \<le> B / 2 ^ 53"
proof (cases "x = 0")
  case True
  then show ?thesis using assms by (simp add: round64_def)
next
  case False
  define e where "e = \<lfloor>log 2 \<bar>x\<bar>\<rfloor>"
  have pos: "0 < \<bar>x\<bar>" using False by simp
  have "2 powr (of_int e) \<le> \<bar>x\<bar>"
    using pos floor_log_eq_powr_iff[of "\<bar>x\<bar>" 2 e] e_def by simp
  then have lo: "2 powi e \<le> \<bar>x\<bar>" by (simp add: powr_real_of_int')
  have r: "round64 x = of_int (rne (x * 2 powi (52 - e))) * 2 powi (e - 52)"
    using False by (simp add: round64_def e_def Let_def)
  have u: "(2::real) powi (52 - e) * 2 powi (e - 52) = 1"
    by (simp add: power_int_add[symmetric])
  have "round64 x - x = (of_int (rne (x * 2 powi (52 - e))) - x * 2 powi (52 - e)) * 2 powi (e - 52)"
    using r u by (simp add: algebra_simps)
  then have "\<bar>round64 x - x\<bar> =
             \<bar>of_int (rne (x * 2 powi (52 - e))) - x * 2 powi (52 - e)\<bar> * 2 powi (e - 52)"
    by (simp add: abs_mult)
  also have "\<dots> \<le> 1 / 2 * 2 powi (e - 52)"
    by (intro mult_right_mono rne_close) simp
  also have "\<dots> = 2 powi e / 2 ^ 53"
    by (simp add: power_int_diff)
  also have "\<dots> \<le> B / 2 ^ 53"
    using lo assms by (simp add: divide_right_mono)
  finally show ?thesis .
qed

lemma rne_of_int: "rne (of_int n) = n"
  by (simp add: rne_def)

lemma round64_1: "round64 1 = 1"
  by (subst round64_eval[where e = 0]) (simp_all add: rne_def)

lemma py_sum_Nil: "py_sum [] = 0"
  by (simp add: py_sum_def)

lemma py_sum_Cons: "py_sum (x # xs) = foldl py_add (py_add 0 x) xs"
  by (simp add: py_sum_def)

lemma py_sub_1_0: "py_sub 1 0 = 1"
  by (simp add: py_sub_def round64_1)

section \<open>Pruning and condensing\<close>

text \<open>Modelled from the spec: \<open>prune_models\<close> subtracts the removed models from every
  node and deletes each node left without a model, together with its subtree.\<close>

definition prune_models :: "model_tree \<Rightarrow> model set \<Rightarrow> model_tree" where
  "prune_models tree removed =
     (let pruned = map (\<lambda>(p, ms). (p, ms - removed)) (nodes tree);
          emptied = map fst (filter (\<lambda>(p, ms). ms = {}) pruned)
      in tree\<lparr>nodes := filter (\<lambda>(p, ms). \<not> (\<exists>e \<in> set emptied. prefix e p)) pruned\<rparr>)"

text \<open>Modelled from the spec: \<open>condense\<close>. Paths alternate between input tokens (odd
  length) and response tokens (even length), and nodes are named by their paths, so
  surviving nodes keep their names. An input node with exactly one child no longer
  contributes a decision when its subtree is a mere chain ending in a single leaf: the
  chain is collapsed into the response node above it, which keeps its candidate set and
  becomes a leaf when it was its only input. An input whose responses still tell models
  apart is never merged. This repeats until nothing changes, and a tree with a single
  leaf left is the empty tree.\<close>

definition mergeable :: "model_tree \<Rightarrow> path \<Rightarrow> bool" where
  "mergeable tree node =
     (odd (length node) \<and> length (children tree node) = 1 \<and>
      length (leaves (subtree tree node)) = 1)"

definition condense_step :: "model_tree \<Rightarrow> model_tree" where
  "condense_step tree =
     (if length (leaves tree) \<le> 1 then tree\<lparr>nodes := []\<rparr>
      else
        (let merged = filter (mergeable tree) (map fst (nodes tree))
         in tree\<lparr>nodes := filter (\<lambda>(p, ms). \<not> (\<exists>d \<in> set merged. prefix d p)) (nodes tree)\<rparr>))"

primrec condense_rounds :: "nat \<Rightarrow> model_tree \<Rightarrow> model_tree" where
  "condense_rounds 0 tree = tree"
| "condense_rounds (Suc n) tree = condense_rounds n (condense_step tree)"

definition condense :: "model_tree \<Rightarrow> model_tree" where
  "condense tree = condense_rounds (length (nodes tree)) tree"

section \<open>Connectors\<close>

text \<open>
  The state of a run: the tree, which \<open>identify\<close> mutates in place and which the
  benchmark connector reads through its own reference to the same object; the connector;
  and the log of the connector's operations that were invoked, kept to state what a run
  did. An operation returns its result or the exception it raised, and the state as it
  is then.
\<close>

record bench =
  target :: model
  messages :: "token list"
  current_node :: path

datatype 'l connector = BenchmarkConnector bench | TLSAttackerConnector 'l

datatype call = Send token | Reset | Close

text \<open>The harness process and its socket are outside the program: what a transmission
  returns and what closing does are parameters.\<close>

record 'l transport =
  transmit :: "'l \<Rightarrow> token \<Rightarrow> error + token \<times> 'l"
  terminate :: "'l \<Rightarrow> error + 'l"

record 'l world =
  tree :: model_tree
  connector :: "'l connector"
  calls :: "call list"

definition benchmark_send :: "model_tree \<Rightarrow> bench \<Rightarrow> token \<Rightarrow> (error + token option) \<times> bench" where
  "benchmark_send tr b message =
     (let b1 = b\<lparr>messages := messages b @ [message],
                   current_node := current_node b @ [message]\<rparr>
      in case getitem tr (current_node b1) of
           Inl e \<Rightarrow> (Inl e, b1)
         | Inr neighbors \<Rightarrow>
             (case find (\<lambda>neighbor. target b1 \<in> models (subtree tr neighbor)) neighbors of
                None \<Rightarrow> (Inr None, b1)
              | Some neighbor \<Rightarrow>
                  (let output = last neighbor
                   in (Inr (Some output),
                       b1\<lparr>messages := messages b1 @ [output],
                          current_node := current_node b1 @ [output]\<rparr>))))"

definition benchmark_reset :: "bench \<Rightarrow> bench" where
  "benchmark_reset b = b\<lparr>messages := messages b @ [''RESET'', []], current_node := []\<rparr>"

definition send :: "'l transport \<Rightarrow> 'l world \<Rightarrow> token \<Rightarrow> (error + token option) \<times> 'l world" where
  "send tp w message =
     (let w1 = w\<lparr>calls := calls w @ [Send message]\<rparr>
      in case connector w1 of
           BenchmarkConnector b \<Rightarrow>
             (case benchmark_send (tree w1) b message of
                (r, b') \<Rightarrow> (r, w1\<lparr>connector := BenchmarkConnector b'\<rparr>))
         | TLSAttackerConnector l \<Rightarrow>
             (case transmit tp l message of
                Inl e \<Rightarrow> (Inl e, w1)
              | Inr (response, l') \<Rightarrow>
                  (Inr (Some response), w1\<lparr>connector := TLSAttackerConnector l'\<rparr>)))"

definition reset :: "'l transport \<Rightarrow> 'l world \<Rightarrow> (error + unit) \<times> 'l world" where
  "reset tp w =
     (let w1 = w\<lparr>calls := calls w @ [Reset]\<rparr>
      in case connector w1 of
           BenchmarkConnector b \<Rightarrow> (Inr (), w1\<lparr>connector := BenchmarkConnector (benchmark_reset b)\<rparr>)
         | TLSAttackerConnector l \<Rightarrow>
             (case transmit tp l ''RESET'' of
                Inl e \<Rightarrow> (Inl e, w1)
              | Inr (_, l') \<Rightarrow> (Inr (), w1\<lparr>connector := TLSAttackerConnector l'\<rparr>)))"

definition close :: "'l transport \<Rightarrow> 'l world \<Rightarrow> (error + unit) \<times> 'l world" where
  "close tp w =
     (let w1 = w\<lparr>calls := calls w @ [Close]\<rparr>
      in case connector w1 of
           BenchmarkConnector b \<Rightarrow> (Inr (), w1)
         | TLSAttackerConnector l \<Rightarrow>
             (case terminate tp l of
                Inl e \<Rightarrow> (Inl e, w1)
              | Inr l' \<Rightarrow> (Inr (), w1\<lparr>connector := TLSAttackerConnector l'\<rparr>)))"

section \<open>Selectors return children of the current node\<close>

lemma map_err_Inr_map:
  "map_err (\<lambda>x. case g x of Inl e \<Rightarrow> Inl e | Inr v \<Rightarrow> Inr (x, v)) xs = Inr ys \<Longrightarrow> map fst ys = xs"
  by (induction xs arbitrary: ys) (auto split: sum.splits)

lemma fold_update_keys:
  "fst ` set (fold (\<lambda>(k, v). AList.update k v) es al) = fst ` set es \<union> fst ` set al"
  by (induction es arbitrary: al) (auto simp: dom_update split: prod.splits)

lemma fold_update_keys2:
  "fst ` set (fold (\<lambda>k. AList.update k (f k)) ks al) = set ks \<union> fst ` set al"
  by (induction ks arbitrary: al) (auto simp: dom_update)

lemma min_by_mem: "min_by key b xs \<in> insert b (set xs)"
  by (induction xs arbitrary: b) auto

lemma max_by_mem: "max_by key b xs \<in> insert b (set xs)"
  by (induction xs arbitrary: b) auto

lemma hd_tl_min_by_mem: "xs \<noteq> [] \<Longrightarrow> min_by key (hd xs) (tl xs) \<in> set xs"
  using min_by_mem[of key "hd xs" "tl xs"] by (cases xs) auto

lemma gini_selector_child:
  assumes "gini_selector t cur wt = Inr sn"
  shows "sn \<in> set (children t cur)"
proof -
  from assms obtain ins es where g: "getitem t cur = Inr ins"
    and m: "map_err (\<lambda>input_node.
                      case gini_impurity t wt (tree_weight (subtree t cur) (model_mapping t) wt) input_node of
                        Inl e \<Rightarrow> Inl e | Inr v \<Rightarrow> Inr (input_node, v)) ins = Inr es"
    by (auto simp: gini_selector_def Let_def split: sum.splits)
  have ins: "ins = children t cur" using g by (auto simp: getitem_def split: option.splits)
  have keys: "map fst es = ins" using m by (rule map_err_Inr_map)
  define imp where "imp = fold (\<lambda>(k, v). AList.update k v) es []"
  have ik: "fst ` set imp = set ins" unfolding imp_def fold_update_keys using keys by (metis empty_set image_empty list.set_map sup_bot.right_neutral)
  define cand where "cand = map fst (filter (\<lambda>(node, value). value = Max (set (map snd imp))) imp)"
  have cs: "set cand \<subseteq> set ins" unfolding cand_def using ik by force
  from assms g m have ne: "imp \<noteq> []" 
    by (auto simp: gini_selector_def Let_def imp_def split: if_splits)
  have "Max (set (map snd imp)) \<in> set (map snd imp)" using ne by (intro Max_in) auto
  then have cne: "cand \<noteq> []" unfolding cand_def by (auto simp: filter_empty_conv)
  from assms g m ne have r: "sn = (if length cand > 1 then fst (min_by snd (hd (fold (\<lambda>node. AList.update node (len (subtree t node))) cand [])) (tl (fold (\<lambda>node. AList.update node (len (subtree t node))) cand []))) else hd cand)"
    by (auto simp: gini_selector_def Let_def imp_def cand_def split: if_splits)
  show ?thesis
  proof (cases "length cand > 1")
    case True
    define ss where "ss = fold (\<lambda>node. AList.update node (len (subtree t node))) cand []"
    have sk: "fst ` set ss = set cand" unfolding ss_def by (simp add: fold_update_keys2)
    then have "ss \<noteq> []" using cne by auto
    then have "min_by snd (hd ss) (tl ss) \<in> set ss" by (rule hd_tl_min_by_mem)
    then have "fst (min_by snd (hd ss) (tl ss)) \<in> set cand" using sk by auto
    then show ?thesis using r True cs ins by (auto simp: ss_def)
  next
    case False
    then show ?thesis using r cne cs ins by (cases cand) auto
  qed
qed

lemma entropy_selector_child:
  assumes "entropy_selector t cur wt = Inr sn"
  shows "sn \<in> set (children t cur)"
proof -
  from assms obtain ins e es where g: "getitem t cur = Inr ins"
    and m: "map_err (\<lambda>input_node.
                      case entropy_metric t wt (tree_weight (subtree t cur) (model_mapping t) wt) input_node of
                        Inl e \<Rightarrow> Inl e | Inr v \<Rightarrow> Inr (input_node, v)) ins = Inr (e # es)"
    and r: "sn = fst (max_by snd e es)"
    by (auto simp: entropy_selector_def Let_def split: sum.splits list.splits)
  have ins: "ins = children t cur" using g by (auto simp: getitem_def split: option.splits)
  have keys: "map fst (e # es) = ins" using m by (rule map_err_Inr_map)
  have "max_by snd e es \<in> set (e # es)" using max_by_mem[of snd e es] by simp
  then have "sn \<in> fst ` set (e # es)" unfolding r by blast
  then show ?thesis using keys ins by (metis list.set_map)
qed

lemma nth_mem_children: "children t cur = n # ns \<Longrightarrow> (n # ns) ! (k mod length (n # ns)) \<in> set (children t cur)"
  by (metis length_greater_0_conv list.distinct(1) mod_less_divisor nth_mem)

lemma random_selector_child:
  assumes "random_selector c t cur wt = Inr sn"
  shows "sn \<in> set (children t cur)"
proof -
  from assms obtain n ns where g: "getitem t cur = Inr (n # ns)"
    and r: "sn = (n # ns) ! (c (n # ns) mod length (n # ns))"
    by (auto simp: random_selector_def split: sum.splits list.splits)
  have "children t cur = n # ns" using g by (auto simp: getitem_def split: option.splits)
  then show ?thesis unfolding r by (rule nth_mem_children)
qed

lemma select_child: "select sel t cur wt = Inr sn \<Longrightarrow> sn \<in> set (children t cur)"
proof (cases sel)
  case (RandomSel c)
  assume "select sel t cur wt = Inr sn"
  then show ?thesis using RandomSel
    using random_selector_child by simp
next
  case FirstSel
  assume "select sel t cur wt = Inr sn"
  then show ?thesis using FirstSel
    by (auto simp: always_first_selector_def getitem_def split: option.splits sum.splits list.splits)
next
  case GiniSel
  assume "select sel t cur wt = Inr sn"
  then show ?thesis using GiniSel gini_selector_child by simp
next
  case EntropySel
  assume "select sel t cur wt = Inr sn"
  then show ?thesis using EntropySel entropy_selector_child by simp
qed

section \<open>Descent and identification\<close>

lemma send_tree: "send tp w message = (r, w1) \<Longrightarrow> tree w1 = tree w"
  by (auto simp: send_def Let_def split: connector.splits prod.splits sum.splits)

lemma getitem_Inr_length:
  "getitem t p = Inr cs \<Longrightarrow> length p \<le> sum_list (map (length \<circ> fst) (nodes t))"
proof -
  assume "getitem t p = Inr cs"
  then obtain ms where "map_of (nodes t) p = Some ms"
    by (auto simp: getitem_def split: option.splits)
  then have "(p, ms) \<in> set (nodes t)" by (rule map_of_SomeD)
  then have "(length \<circ> fst) (p, ms) \<in> set (map (length \<circ> fst) (nodes t))"
    by force
  then have "(length \<circ> fst) (p, ms) \<le> sum_list (map (length \<circ> fst) (nodes t))"
    by (intro member_le_sum_list) simp_all
  then show ?thesis by simp
qed

lemma children_length: "q \<in> set (children t p) \<Longrightarrow> length q = Suc (length p)"
proof -
  assume "q \<in> set (children t p)"
  then have "q \<noteq> []" and "butlast q = p" by (auto simp: children_def)
  then show ?thesis by (cases q rule: rev_cases) auto
qed

text \<open>
  The loop of \<open>descent\<close>. The leaves are read once, before the loop. A response
  \<open>None\<close> (which only the benchmark connector returns) makes a path that no tree
  holds, its nodes being named by tuples of strings: the lookup raises the
  \<open>KeyError\<close> that the loop catches.
\<close>

function descent_loop ::
  "'l transport \<Rightarrow> strategy \<Rightarrow> (implementation set \<Rightarrow> real) \<Rightarrow> path list \<Rightarrow>
   'l world \<Rightarrow> path \<Rightarrow> (error + path option) \<times> 'l world" where
  "descent_loop tp selector weight_function lvs w node =
     (case select selector (tree w) node weight_function of
        Inl e \<Rightarrow> (Inl e, w)
      | Inr send_node \<Rightarrow>
          (case send tp w (last send_node) of
             (Inl e, w1) \<Rightarrow> (Inl e, w1)
           | (Inr None, w1) \<Rightarrow> (Inr None, w1)
           | (Inr (Some response), w1) \<Rightarrow>
               (let response_node = send_node @ [response]
                in case getitem (tree w1) response_node of
                     Inl _ \<Rightarrow> (Inr None, w1)
                   | Inr _ \<Rightarrow>
                       if response_node \<in> set lvs then (Inr (Some response_node), w1)
                       else descent_loop tp selector weight_function lvs w1 response_node)))"
  by pat_completeness auto
termination
proof (relation "measure (\<lambda>(tp, selector, weight_function, lvs, w, node).
          Suc (sum_list (map (length \<circ> fst) (nodes (tree w)))) - length node)",
       goal_cases)
  case 1
  show ?case by simp
next
  case (2 tp selector weight_function lvs w node send_node r w1 resp response rn cs)
  have t: "tree w1 = tree w" using 2 send_tree by metis
  have "send_node \<in> set (children (tree w) node)" using 2 select_child by simp
  then have l: "length send_node = Suc (length node)" by (rule children_length)
  have "getitem (tree w1) rn = Inr cs" using 2 by simp
  then have "length rn \<le> sum_list (map (length \<circ> fst) (nodes (tree w1)))"
    by (rule getitem_Inr_length)
  then show ?case using 2 l t by simp
qed

definition descent ::
  "'l transport \<Rightarrow> strategy \<Rightarrow> (implementation set \<Rightarrow> real) \<Rightarrow> 'l world \<Rightarrow>
   (error + path option) \<times> 'l world" where
  "descent tp selector weight_function w =
     descent_loop tp selector weight_function (leaves (tree w)) w []"

text \<open>What \<open>identify\<close> returns: \<open>None\<close> when no model matches, the models of the
  last leaf, or in benchmark mode these models and the connector's messages.\<close>

datatype outcome = NoMatch | Candidates "model set" | CandidatesTranscript "model set" "token list"

text \<open>
  The loop of \<open>identify\<close>, without the optional drawing of graphs. It may run
  forever, so the model counts rounds down from a bound and yields \<open>None\<close> when the
  bound is used up. Benchmark mode is the mode whose connector is the benchmark connector.
\<close>

fun identify_loop ::
  "'l transport \<Rightarrow> strategy \<Rightarrow> (implementation set \<Rightarrow> real) \<Rightarrow> nat \<Rightarrow> 'l world \<Rightarrow>
   ((error + outcome) \<times> 'l world) option" where
  "identify_loop tp selector weight_function 0 w = None"
| "identify_loop tp selector weight_function (Suc rounds) w =
     (case descent tp selector weight_function w of
        (Inl e, w1) \<Rightarrow> Some (Inl e, w1)
      | (Inr None, w1) \<Rightarrow>
          (case close tp w1 of
             (Inl e, w2) \<Rightarrow> Some (Inl e, w2)
           | (Inr _, w2) \<Rightarrow> Some (Inr NoMatch, w2))
      | (Inr (Some leaf_node), w1) \<Rightarrow>
          (case map_of (nodes (tree w1)) leaf_node of
             None \<Rightarrow> Some (Inl KeyError, w1)
           | Some leaf_models \<Rightarrow>
               (let w2 = w1\<lparr>tree := prune_models (tree w1) (models (tree w1) - leaf_models)\<rparr>;
                    w3 = w2\<lparr>tree := condense (tree w2)\<rparr>
                in if len (tree w3) = 0
                   then
                     (case close tp w3 of
                        (Inl e, w4) \<Rightarrow> Some (Inl e, w4)
                      | (Inr _, w4) \<Rightarrow>
                          (case connector w4 of
                             BenchmarkConnector b \<Rightarrow>
                               Some (Inr (CandidatesTranscript leaf_models (messages b)), w4)
                           | TLSAttackerConnector _ \<Rightarrow>
                               Some (Inr (Candidates leaf_models), w4)))
                   else
                     (case reset tp w3 of
                        (Inl e, w4) \<Rightarrow> Some (Inl e, w4)
                      | (Inr _, w4) \<Rightarrow>
                          identify_loop tp selector weight_function rounds w4))))"

definition new_benchmark_connector :: "model \<Rightarrow> 'l connector" where
  "new_benchmark_connector tgt =
     BenchmarkConnector \<lparr>target = tgt, messages = [], current_node = []\<rparr>"

definition identify ::
  "'l transport \<Rightarrow> nat \<Rightarrow> model_tree \<Rightarrow> 'l connector \<Rightarrow> strategy \<Rightarrow>
   (implementation set \<Rightarrow> real) \<Rightarrow> ((error + outcome) \<times> 'l world) option" where
  "identify tp rounds tr conn selector weight_function =
     identify_loop tp selector weight_function rounds
       \<lparr>tree = tr, connector = conn, calls = []\<rparr>"

section \<open>Example trees\<close>

definition no_implementations :: "model \<Rightarrow> implementation set" where
  "no_implementations m = {}"

text \<open>One input \<open>A\<close> with the responses \<open>0\<close> (model 1) and \<open>1\<close> (model 2).\<close>

definition single_round_tree :: model_tree where
  "single_round_tree =
     \<lparr>nodes = [([], {1, 2}), ([''A''], {1, 2}), ([''A'', ''0''], {1}), ([''A'', ''1''], {2})],
      root = [], model_mapping = no_implementations\<rparr>"

definition no_transport :: "unit transport" where
  "no_transport = \<lparr>transmit = (\<lambda>l m. Inl TransportError), terminate = (\<lambda>l. Inr l)\<rparr>"

lemmas tree_defs = getitem_def children_def subtree_def models_def is_leaf_def leaves_def len_def
lemmas connector_defs = new_benchmark_connector_def send_def benchmark_send_def
  benchmark_reset_def reset_def close_def
lemmas mutation_defs = prune_models_def condense_def mergeable_def condense_step_def

lemma find_Some_mem: "find P xs = Some x \<Longrightarrow> x \<in> set xs \<and> P x"
  by (induction xs) (auto split: if_splits)

lemma find_None_iff_set: "find P xs = None \<longleftrightarrow> (\<forall>x \<in> set xs. \<not> P x)"
  by (induction xs) auto

lemma children_snoc: "q \<in> set (children t p) \<Longrightarrow> q = p @ [last q]"
proof -
  assume "q \<in> set (children t p)"
  then have "q \<noteq> []" and "butlast q = p" by (auto simp: children_def)
  then show ?thesis by (metis append_butlast_last_id)
qed

lemma getitem_Inr_children: "getitem t p = Inr cs \<Longrightarrow> cs = children t p"
  by (auto simp: getitem_def split: option.splits)

section \<open>The simulated connector\<close>

text \<open>
  C8: when the node reached by the cursor and the input token exists and some response
  child of it carries the target in the models of its subtree, \<open>send\<close> of the
  benchmark connector moves the cursor through the input token and one such response
  branch, records both tokens, and returns the token of that branch. The result is a
  function of the tree, the target and the cursor alone.
\<close>

theorem benchmark_send_replays_target:
  assumes "getitem tr (current_node b @ [message]) = Inr neighbors"
    and "\<exists>n \<in> set neighbors. target b \<in> models (subtree tr n)"
  shows "\<exists>n \<in> set neighbors. target b \<in> models (subtree tr n) \<and>
           n = current_node b @ [message, last n] \<and>
           benchmark_send tr b message =
             (Inr (Some (last n)),
              b\<lparr>messages := messages b @ [message, last n], current_node := n\<rparr>)"
proof -
  let ?P = "\<lambda>neighbor. target b \<in> models (subtree tr neighbor)"
  from assms(2) have "find ?P neighbors \<noteq> None" by (simp add: find_None_iff_set)
  then obtain n where f: "find ?P neighbors = Some n" by auto
  then have n: "n \<in> set neighbors" "?P n" using find_Some_mem[of ?P neighbors n] by auto
  have "neighbors = children tr (current_node b @ [message])"
    using assms(1) by (rule getitem_Inr_children)
  then have p: "n = current_node b @ [message, last n]" using n(1) children_snoc by fastforce
  have "benchmark_send tr b message =
          (Inr (Some (last n)),
           b\<lparr>messages := messages b @ [message, last n],
              current_node := current_node b @ [message, last n]\<rparr>)"
    using assms(1) f by (simp add: benchmark_send_def Let_def)
  then show ?thesis using n p by (intro bexI[of _ n]) auto
qed

theorem benchmark_send_replays_target_witness:
  "getitem single_round_tree [''A''] = Inr [[''A'', ''0''], [''A'', ''1'']] \<and>
   (\<exists>n \<in> set [[''A'', ''0''], [''A'', ''1'']].
      (1::nat) \<in> models (subtree single_round_tree n) \<and>
      benchmark_send single_round_tree \<lparr>target = 1, messages = [], current_node = []\<rparr> ''A'' =
        (Inr (Some (last n)), \<lparr>target = 1, messages = [''A'', last n], current_node = n\<rparr>))"
proof -
  have h1: "getitem single_round_tree
              (current_node \<lparr>target = 1, messages = [], current_node = []\<rparr> @ [''A'']) =
            Inr [[''A'', ''0''], [''A'', ''1'']]"
    by (simp add: single_round_tree_def tree_defs)
  have h2: "\<exists>n \<in> set [[''A'', ''0''], [''A'', ''1'']].
              target \<lparr>target = 1, messages = [], current_node = []\<rparr>
                \<in> models (subtree single_round_tree n)"
    by (simp add: single_round_tree_def tree_defs)
  show ?thesis using benchmark_send_replays_target[OF h1 h2] h1 by simp
qed

section \<open>Exits of the identification loop\<close>

lemma close_calls: "close tp w = (r, w1) \<Longrightarrow> calls w1 = calls w @ [Close]"
  by (auto simp: close_def Let_def split: connector.splits sum.splits)

lemma close_connector_kind:
  "close tp w = (Inr u, w1) \<Longrightarrow> connector w = BenchmarkConnector b \<Longrightarrow> connector w1 = BenchmarkConnector b"
  by (auto simp: close_def Let_def split: connector.splits sum.splits)

lemma close_connector_live:
  "close tp w = (Inr u, w1) \<Longrightarrow> connector w = TLSAttackerConnector l \<Longrightarrow> \<exists>l'. connector w1 = TLSAttackerConnector l'"
  by (auto simp: close_def Let_def split: connector.splits sum.splits)

text \<open>
  C6: when the tree is empty after pruning to the models of the leaf and condensing,
  \<open>identify\<close> closes the connector and returns the models recorded at that leaf, and
  in benchmark mode also the connector's transcript of messages.
\<close>

theorem empty_tree_terminates:
  assumes "descent tp selector weight_function w = (Inr (Some leaf_node), w1)"
    and "map_of (nodes (tree w1)) leaf_node = Some leaf_models"
    and "w3 = w1\<lparr>tree := condense (prune_models (tree w1) (models (tree w1) - leaf_models))\<rparr>"
    and "len (tree w3) = 0"
    and "close tp w3 = (Inr (), w4)"
  shows "identify_loop tp selector weight_function (Suc rounds) w =
           Some (Inr (case connector w1 of
                        BenchmarkConnector b \<Rightarrow> CandidatesTranscript leaf_models (messages b)
                      | TLSAttackerConnector l \<Rightarrow> Candidates leaf_models), w4)"
proof (cases "connector w1")
  case (BenchmarkConnector b)
  then have "connector w3 = BenchmarkConnector b" using assms(3) by simp
  then have "connector w4 = BenchmarkConnector b" by (rule close_connector_kind[OF assms(5)])
  then show ?thesis using assms BenchmarkConnector by (simp add: Let_def)
next
  case (TLSAttackerConnector l)
  then have "connector w3 = TLSAttackerConnector l" using assms(3) by simp
  then have "\<exists>l'. connector w4 = TLSAttackerConnector l'"
    by (rule close_connector_live[OF assms(5)])
  then obtain l' where "connector w4 = TLSAttackerConnector l'" ..
  then show ?thesis using assms TLSAttackerConnector by (simp add: Let_def)
qed

theorem empty_tree_terminates_witness:
  "identify no_transport 3 single_round_tree (new_benchmark_connector 1) FirstSel
     model_weight_equal =
   Some (Inr (CandidatesTranscript {1} [''A'', ''0'']),
         \<lparr>tree = single_round_tree\<lparr>nodes := []\<rparr>,
            connector = BenchmarkConnector
              \<lparr>target = 1, messages = [''A'', ''0''], current_node = [''A'', ''0'']\<rparr>,
            calls = [Send ''A'', Close]\<rparr>)"
proof -
  let ?b = "\<lparr>target = 1, messages = [''A'', ''0''], current_node = [''A'', ''0'']\<rparr>"
  let ?w = "\<lparr>tree = single_round_tree, connector = new_benchmark_connector 1, calls = []\<rparr>
              :: unit world"
  let ?w1 = "\<lparr>tree = single_round_tree, connector = BenchmarkConnector ?b,
              calls = [Send ''A'']\<rparr> :: unit world"
  let ?w3 = "\<lparr>tree = single_round_tree\<lparr>nodes := []\<rparr>, connector = BenchmarkConnector ?b,
              calls = [Send ''A'']\<rparr> :: unit world"
  let ?w4 = "\<lparr>tree = single_round_tree\<lparr>nodes := []\<rparr>, connector = BenchmarkConnector ?b,
              calls = [Send ''A'', Close]\<rparr> :: unit world"
  have d: "descent no_transport FirstSel model_weight_equal ?w = (Inr (Some [''A'', ''0'']), ?w1)"
    by (simp add: descent_def always_first_selector_def connector_defs
        single_round_tree_def tree_defs Let_def)
  have m: "map_of (nodes (tree ?w1)) [''A'', ''0''] = Some {1}"
    by (simp add: single_round_tree_def)
  have p: "?w3 = ?w1\<lparr>tree := condense (prune_models (tree ?w1) (models (tree ?w1) - {1}))\<rparr>"
    by (simp add: single_round_tree_def tree_defs mutation_defs Let_def)
  have l: "len (tree ?w3) = 0" by (simp add: len_def)
  have c: "close no_transport ?w3 = (Inr (), ?w4)" by (simp add: close_def Let_def)
  show ?thesis
    using empty_tree_terminates[OF d m p l c, of 2] by (simp add: identify_def numeral_3_eq_3)
qed

section \<open>The calls a run makes on its connector\<close>

lemma send_calls: "send tp w message = (r, w1) \<Longrightarrow> calls w1 = calls w @ [Send message]"
  by (auto simp: send_def Let_def split: connector.splits prod.splits sum.splits)

lemma reset_calls: "reset tp w = (r, w1) \<Longrightarrow> calls w1 = calls w @ [Reset]"
  by (auto simp: reset_def Let_def split: connector.splits prod.splits sum.splits)

lemma descent_loop_calls:
  "descent_loop tp selector weight_function lvs w node = (r, w1) \<Longrightarrow>
   \<exists>ms. calls w1 = calls w @ map Send ms"
proof (induction tp selector weight_function lvs w node arbitrary: r w1 rule: descent_loop.induct)
  case (1 tp selector weight_function lvs w node)
  show ?case
  proof (cases "select selector (tree w) node weight_function")
    case (Inl e)
    then have "w1 = w" using "1.prems" by (subst (asm) descent_loop.simps) simp
    then show ?thesis by simp
  next
    case (Inr send_node)
    obtain r2 w2 where s: "send tp w (last send_node) = (r2, w2)" by (cases "send tp w (last send_node)")
    then have c2: "calls w2 = calls w @ map Send [last send_node]" using send_calls by fastforce
    show ?thesis
    proof (cases "\<exists>response cs. r2 = Inr (Some response) \<and>
                    getitem (tree w2) (send_node @ [response]) = Inr cs \<and>
                    send_node @ [response] \<notin> set lvs")
      case True
      then obtain response cs where t: "r2 = Inr (Some response)"
        "getitem (tree w2) (send_node @ [response]) = Inr cs"
        "send_node @ [response] \<notin> set lvs" by blast
      then have "descent_loop tp selector weight_function lvs w2 (send_node @ [response]) = (r, w1)"
        using "1.prems" Inr s by (subst (asm) descent_loop.simps) simp
      then have "\<exists>ms. calls w1 = calls w2 @ map Send ms"
        using "1.IH"[OF Inr s[symmetric] t(1) refl refl t(2) t(3)] by simp
      then obtain ms where "calls w1 = calls w2 @ map Send ms" ..
      then have "calls w1 = calls w @ map Send (last send_node # ms)" using c2 by simp
      then show ?thesis by blast
    next
      case False
      then have "w1 = w2" using "1.prems" Inr s
        by (subst (asm) descent_loop.simps)
           (auto simp: Let_def split: sum.splits option.splits if_splits)
      then show ?thesis using c2 by blast
    qed
  qed
qed

lemma descent_calls:
  "descent tp selector weight_function w = (r, w1) \<Longrightarrow> \<exists>ms. calls w1 = calls w @ map Send ms"
  unfolding descent_def by (rule descent_loop_calls)

lemma count_list_map_Send_Close [simp]: "count_list (map Send ms) Close = 0"
  by (induction ms) auto

lemma count_list_map_Send_Reset [simp]: "count_list (map Send ms) Reset = 0"
  by (induction ms) auto

lemma count_list_append [simp]: "count_list (xs @ ys) x = count_list xs x + count_list ys x"
  by (induction xs) auto

text \<open>
  C9, amended: whenever \<open>identify\<close> returns a result (the candidates of the last leaf,
  or no match after a failed descent), \<open>close\<close> is the last operation it invoked on
  the connector. When it ends with an exception instead, it has not invoked
  \<open>close\<close>, unless the exception was raised by \<open>close\<close> itself: an exception
  of a selector, of the tree or of \<open>send\<close> or \<open>reset\<close> leaves the loop with the
  connector open.
\<close>

theorem close_on_every_return:
  assumes "identify_loop tp selector weight_function rounds w = Some (r, w')"
  shows "case r of
           Inr result \<Rightarrow> calls w' \<noteq> [] \<and> last (calls w') = Close
         | Inl e \<Rightarrow> count_list (calls w') Close = count_list (calls w) Close
                     \<or> (\<exists>w3. close tp w3 = (Inl e, w'))"
  using assms
proof (induction rounds arbitrary: w)
  case 0
  then show ?case by simp
next
  case (Suc rounds)
  obtain d w1 where d: "descent tp selector weight_function w = (d, w1)"
    by (cases "descent tp selector weight_function w")
  then obtain ms where c1: "calls w1 = calls w @ map Send ms" using descent_calls by blast
  show ?case
  proof (cases d)
    case (Inl e)
    then show ?thesis using Suc.prems d c1 by auto
  next
    case (Inr leaf)
    show ?thesis
    proof (cases leaf)
      case None
      obtain c w2 where c: "close tp w1 = (c, w2)" by (cases "close tp w1")
      then have "calls w2 = calls w1 @ [Close]" by (rule close_calls)
      then show ?thesis using Suc.prems d Inr None c by (cases c) auto
    next
      case (Some leaf_node)
      show ?thesis
      proof (cases "map_of (nodes (tree w1)) leaf_node")
        case None
        then show ?thesis using Suc.prems d Inr Some c1 by auto
      next
        case (Some leaf_models)
        define w3 where "w3 = w1\<lparr>tree := condense (prune_models (tree w1) (models (tree w1) - leaf_models))\<rparr>"
        have c3: "calls w3 = calls w1" by (simp add: w3_def)
        show ?thesis
        proof (cases "len (tree w3) = 0")
          case True
          obtain c w4 where c: "close tp w3 = (c, w4)" by (cases "close tp w3")
          then have "calls w4 = calls w3 @ [Close]" by (rule close_calls)
          then show ?thesis using Suc.prems d Inr \<open>leaf = Some leaf_node\<close> Some True c
            by (cases c) (auto simp: w3_def Let_def split: connector.splits)
        next
          case False
          obtain c w4 where c: "reset tp w3 = (c, w4)" by (cases "reset tp w3")
          then have c4: "calls w4 = calls w @ map Send ms @ [Reset]"
            using reset_calls c3 c1 by fastforce
          show ?thesis
          proof (cases c)
            case (Inl e)
            then show ?thesis using Suc.prems d Inr \<open>leaf = Some leaf_node\<close> Some False c c4
              by (auto simp: w3_def Let_def)
          next
            case (Inr u)
            then have i: "identify_loop tp selector weight_function rounds w4 = Some (r, w')"
              using Suc.prems d \<open>d = Inr leaf\<close> \<open>leaf = Some leaf_node\<close> Some False c
              by (auto simp: w3_def Let_def)
            show ?thesis using Suc.IH[OF i] c4 by (cases r) auto
          qed
        qed
      qed
    qed
  qed
qed

theorem close_on_every_return_witness:
  "identify_loop no_transport FirstSel model_weight_equal 3
     \<lparr>tree = single_round_tree, connector = new_benchmark_connector 1, calls = []\<rparr> =
   Some (Inr (CandidatesTranscript {1} [''A'', ''0'']),
         \<lparr>tree = single_round_tree\<lparr>nodes := []\<rparr>,
            connector = BenchmarkConnector
              \<lparr>target = 1, messages = [''A'', ''0''], current_node = [''A'', ''0'']\<rparr>,
            calls = [Send ''A'', Close]\<rparr>) \<and>
   last [Send ''A'', Close] = Close"
proof -
  let ?w = "\<lparr>tree = single_round_tree, connector = new_benchmark_connector 1, calls = []\<rparr>
              :: unit world"
  let ?w' = "\<lparr>tree = single_round_tree\<lparr>nodes := []\<rparr>,
            connector = BenchmarkConnector
              \<lparr>target = 1, messages = [''A'', ''0''], current_node = [''A'', ''0'']\<rparr>,
            calls = [Send ''A'', Close]\<rparr> :: unit world"
  have run: "identify_loop no_transport FirstSel model_weight_equal 3 ?w =
             Some (Inr (CandidatesTranscript {1} [''A'', ''0'']), ?w')"
    by (simp add: numeral_3_eq_3 descent_def always_first_selector_def connector_defs
        single_round_tree_def tree_defs mutation_defs Let_def)
  show ?thesis using close_on_every_return[OF run] run by simp
qed

text \<open>
  The claim as stated fails: a transport fault in \<open>send\<close>, or a division by zero in
  the Gini selector, ends \<open>identify\<close> without any call of \<open>close\<close>.
\<close>

theorem close_skipped_on_exception:
  "identify no_transport 3 single_round_tree (TLSAttackerConnector ()) FirstSel
     model_weight_equal =
   Some (Inl TransportError,
         \<lparr>tree = single_round_tree, connector = TLSAttackerConnector (),
            calls = [Send ''A'']\<rparr>) \<and>
   Close \<notin> set [Send ''A''] \<and>
   identify no_transport 3 single_round_tree (new_benchmark_connector 1) GiniSel (\<lambda>_. 0) =
   Some (Inl ZeroDivisionError,
         \<lparr>tree = single_round_tree, connector = new_benchmark_connector 1, calls = []\<rparr>)"
  by (simp add: identify_def numeral_3_eq_3 descent_def always_first_selector_def
      gini_selector_def gini_impurity_def output_weights_def tree_weight_def py_div_def
      connector_defs no_transport_def single_round_tree_def tree_defs Let_def)

section \<open>A target that the tree does not hold\<close>

text \<open>
  The positions a descent passes through: from a state and a node, one turn of the loop
  that finds the response node in the tree, not among the leaves, leads to the next state
  and node.
\<close>

inductive descends ::
  "'l transport \<Rightarrow> strategy \<Rightarrow> (implementation set \<Rightarrow> real) \<Rightarrow> path list \<Rightarrow>
   'l world \<Rightarrow> path \<Rightarrow> 'l world \<Rightarrow> path \<Rightarrow> bool"
  for tp selector weight_function lvs where
  start: "descends tp selector weight_function lvs w node w node"
| step: "descends tp selector weight_function lvs w0 node0 w node \<Longrightarrow>
         select selector (tree w) node weight_function = Inr send_node \<Longrightarrow>
         send tp w (last send_node) = (Inr (Some response), w1) \<Longrightarrow>
         getitem (tree w1) (send_node @ [response]) = Inr cs \<Longrightarrow>
         send_node @ [response] \<notin> set lvs \<Longrightarrow>
         descends tp selector weight_function lvs w0 node0 w1 (send_node @ [response])"

lemma descends_descent_loop:
  "descends tp selector weight_function lvs w0 node0 w node \<Longrightarrow>
   descent_loop tp selector weight_function lvs w0 node0 =
   descent_loop tp selector weight_function lvs w node"
proof (induction rule: descends.induct)
  case (start w node)
  show ?case by simp
next
  case (step w0 node0 w node send_node response w1 cs)
  have "descent_loop tp selector weight_function lvs w node =
        descent_loop tp selector weight_function lvs w1 (send_node @ [response])"
    using step.hyps by (subst descent_loop.simps) simp
  then show ?case using step.IH by simp
qed

text \<open>
  C10: in a benchmark run, when the descent has come to a node at which the selector
  picks an input and no response child below the connector's cursor and that input holds
  the target in its subtree, \<open>send\<close> returns \<open>None\<close> without raising, the descent
  returns no leaf, and \<open>identify\<close> closes the connector and returns the no-match
  result, with no exception.
\<close>

theorem absent_target_ends_without_exception:
  assumes "descends tp selector weight_function (leaves (tree w0)) w0 [] w node"
    and "connector w = BenchmarkConnector b"
    and "select selector (tree w) node weight_function = Inr send_node"
    and "getitem (tree w) (current_node b @ [last send_node]) = Inr neighbors"
    and "\<forall>n \<in> set neighbors. target b \<notin> models (subtree (tree w) n)"
    and "b' = b\<lparr>messages := messages b @ [last send_node],
                  current_node := current_node b @ [last send_node]\<rparr>"
  shows "benchmark_send (tree w) b (last send_node) = (Inr None, b') \<and>
         descent tp selector weight_function w0 =
           (Inr None, w\<lparr>connector := BenchmarkConnector b',
                         calls := calls w @ [Send (last send_node)]\<rparr>) \<and>
         identify_loop tp selector weight_function (Suc rounds) w0 =
           Some (Inr NoMatch, w\<lparr>connector := BenchmarkConnector b',
                                 calls := calls w @ [Send (last send_node), Close]\<rparr>)"
proof -
  let ?w1 = "w\<lparr>connector := BenchmarkConnector b', calls := calls w @ [Send (last send_node)]\<rparr>"
  have f: "find (\<lambda>neighbor. target b \<in> models (subtree (tree w) neighbor)) neighbors = None"
    using assms(5) by (simp add: find_None_iff_set)
  have bs: "benchmark_send (tree w) b (last send_node) = (Inr None, b')"
    using assms(4,6) f by (simp add: benchmark_send_def Let_def)
  have s: "send tp w (last send_node) = (Inr None, ?w1)"
    using assms(2) bs by (simp add: send_def Let_def)
  have "descent_loop tp selector weight_function (leaves (tree w0)) w node = (Inr None, ?w1)"
    using assms(3) s by (subst descent_loop.simps) simp
  then have d: "descent tp selector weight_function w0 = (Inr None, ?w1)"
    using descends_descent_loop[OF assms(1)] by (simp add: descent_def)
  have c: "close tp ?w1 = (Inr (), ?w1\<lparr>calls := calls ?w1 @ [Close]\<rparr>)"
    by (simp add: close_def Let_def)
  have "identify_loop tp selector weight_function (Suc rounds) w0 =
          Some (Inr NoMatch, ?w1\<lparr>calls := calls ?w1 @ [Close]\<rparr>)"
    using d c by simp
  then show ?thesis using bs d by simp
qed

theorem absent_target_ends_without_exception_witness:
  "identify_loop no_transport FirstSel model_weight_equal 3
     \<lparr>tree = single_round_tree, connector = new_benchmark_connector 7, calls = []\<rparr> =
   Some (Inr NoMatch,
         \<lparr>tree = single_round_tree,
            connector = BenchmarkConnector
              \<lparr>target = 7, messages = [''A''], current_node = [''A'']\<rparr>,
            calls = [Send ''A'', Close]\<rparr>)"
proof -
  let ?b = "\<lparr>target = 7, messages = [], current_node = []\<rparr>"
  let ?w = "\<lparr>tree = single_round_tree, connector = BenchmarkConnector ?b, calls = []\<rparr>
              :: unit world"
  have r: "descends no_transport FirstSel model_weight_equal (leaves (tree ?w)) ?w [] ?w []"
    by (rule descends.start)
  have c: "connector ?w = BenchmarkConnector ?b" by simp
  have s: "select FirstSel (tree ?w) [] model_weight_equal = Inr [''A'']"
    by (simp add: always_first_selector_def single_round_tree_def tree_defs)
  have g: "getitem (tree ?w) (current_node ?b @ [last [''A'']]) =
           Inr [[''A'', ''0''], [''A'', ''1'']]"
    by (simp add: single_round_tree_def tree_defs)
  have n: "\<forall>n \<in> set [[''A'', ''0''], [''A'', ''1'']].
             target ?b \<notin> models (subtree (tree ?w) n)"
    by (simp add: single_round_tree_def tree_defs)
  show ?thesis
    using absent_target_ends_without_exception[OF r c s g n refl, of 2]
    by (simp add: new_benchmark_connector_def)
qed

section \<open>A descent that leaves the tree\<close>

text \<open>A peer that answers from a script: the state of the transport is the list of the
  responses still to come.\<close>

definition scripted_transport :: "token list transport" where
  "scripted_transport =
     \<lparr>transmit = (\<lambda>l m. case l of [] \<Rightarrow> Inl TransportError | r # rs \<Rightarrow> Inr (r, rs)),
      terminate = (\<lambda>l. Inr l)\<rparr>"

text \<open>Input \<open>A\<close> with the responses \<open>0\<close> (models 1 and 2) and \<open>1\<close> (model 3); after
  \<open>A\<close>, \<open>0\<close> the input \<open>B\<close> with the responses \<open>x\<close> (model 1) and \<open>y\<close> (model 2).\<close>

definition deep_tree :: model_tree where
  "deep_tree =
     \<lparr>nodes = [([], {1, 2, 3}), ([''A''], {1, 2, 3}),
               ([''A'', ''0''], {1, 2}), ([''A'', ''1''], {3}),
               ([''A'', ''0'', ''B''], {1, 2}),
               ([''A'', ''0'', ''B'', ''x''], {1}), ([''A'', ''0'', ''B'', ''y''], {2})],
      root = [], model_mapping = no_implementations\<rparr>"

text \<open>
  C5: at whatever depth a descent stands, when the path made of the selected input and
  the response to it is not in the tree (the lookup raises the \<open>KeyError\<close> that
  \<open>descent\<close> catches, which is also what happens to a response \<open>None\<close>), the descent
  returns no leaf, and \<open>identify\<close> closes the connector and returns the no-match
  result in that very round: after the last \<open>send\<close> of the descent the only operation
  on the connector is \<open>close\<close>, whatever number of rounds was still allowed, so no
  descent is tried again.
\<close>

theorem absent_path_is_final:
  assumes "descends tp selector weight_function (leaves (tree w0)) w0 [] w node"
    and "select selector (tree w) node weight_function = Inr send_node"
    and "send tp w (last send_node) = (Inr r, w1)"
    and "\<forall>response. r = Some response \<longrightarrow>
           getitem (tree w1) (send_node @ [response]) = Inl KeyError"
    and "close tp w1 = (Inr (), w2)"
  shows "descent tp selector weight_function w0 = (Inr None, w1) \<and>
         identify_loop tp selector weight_function (Suc rounds) w0 = Some (Inr NoMatch, w2) \<and>
         calls w1 = calls w @ [Send (last send_node)] \<and>
         calls w2 = calls w1 @ [Close]"
proof -
  have "descent_loop tp selector weight_function (leaves (tree w0)) w node = (Inr None, w1)"
  proof (cases r)
    case None
    then show ?thesis using assms(2,3) by (subst descent_loop.simps) simp
  next
    case (Some response)
    then have "getitem (tree w1) (send_node @ [response]) = Inl KeyError"
      using assms(4) by simp
    then show ?thesis using assms(2,3) Some by (subst descent_loop.simps) simp
  qed
  then have d: "descent tp selector weight_function w0 = (Inr None, w1)"
    using descends_descent_loop[OF assms(1)] by (simp add: descent_def)
  have i: "identify_loop tp selector weight_function (Suc rounds) w0 = Some (Inr NoMatch, w2)"
    using d assms(5) by simp
  have s: "calls w1 = calls w @ [Send (last send_node)]"
    using assms(3) by (auto simp: send_def Let_def split: connector.splits prod.splits sum.splits)
  have c: "calls w2 = calls w1 @ [Close]"
    using assms(5) by (rule close_calls)
  show ?thesis using d i s c by simp
qed

theorem absent_path_is_final_witness:
  "identify scripted_transport 3 deep_tree (TLSAttackerConnector [''0'', ''z'', ''x''])
     FirstSel model_weight_equal =
   Some (Inr NoMatch,
         \<lparr>tree = deep_tree, connector = TLSAttackerConnector [''x''],
            calls = [Send ''A'', Send ''B'', Close]\<rparr>)"
proof -
  let ?wa = "\<lparr>tree = deep_tree, connector = TLSAttackerConnector [''0'', ''z'', ''x''],
               calls = []\<rparr>"
  let ?w = "\<lparr>tree = deep_tree, connector = TLSAttackerConnector [''z'', ''x''],
              calls = [Send ''A'']\<rparr>"
  let ?wb = "\<lparr>tree = deep_tree, connector = TLSAttackerConnector [''x''],
               calls = [Send ''A'', Send ''B'']\<rparr>"
  let ?wc = "\<lparr>tree = deep_tree, connector = TLSAttackerConnector [''x''],
               calls = [Send ''A'', Send ''B'', Close]\<rparr>"
  have l: "leaves deep_tree = [[''A'', ''1''], [''A'', ''0'', ''B'', ''x''], [''A'', ''0'', ''B'', ''y'']]"
    by (simp add: deep_tree_def tree_defs)
  have s0: "select FirstSel (tree ?wa) [] model_weight_equal = Inr [''A'']"
    by (simp add: always_first_selector_def deep_tree_def tree_defs)
  have t0: "send scripted_transport ?wa (last [''A'']) = (Inr (Some ''0''), ?w)"
    by (simp add: send_def scripted_transport_def Let_def)
  have g0: "getitem (tree ?w) ([''A''] @ [''0'']) = Inr [[''A'', ''0'', ''B'']]"
    by (simp add: deep_tree_def tree_defs)
  have n0: "[''A''] @ [''0''] \<notin> set (leaves (tree ?wa))"
    by (simp add: l)
  have r: "descends scripted_transport FirstSel model_weight_equal (leaves (tree ?wa))
             ?wa [] ?w ([''A''] @ [''0''])"
    by (rule descends.step[OF descends.start s0 t0 g0 n0])
  have s: "select FirstSel (tree ?w) ([''A''] @ [''0'']) model_weight_equal =
           Inr [''A'', ''0'', ''B'']"
    by (simp add: always_first_selector_def deep_tree_def tree_defs)
  have t: "send scripted_transport ?w (last [''A'', ''0'', ''B'']) = (Inr (Some ''z''), ?wb)"
    by (simp add: send_def scripted_transport_def Let_def)
  have g: "\<forall>response. Some ''z'' = Some response \<longrightarrow>
             getitem (tree ?wb) ([''A'', ''0'', ''B''] @ [response]) = Inl KeyError"
    by (simp add: deep_tree_def tree_defs)
  have c: "close scripted_transport ?wb = (Inr (), ?wc)"
    by (simp add: close_def scripted_transport_def Let_def)
  show ?thesis
    using absent_path_is_final[OF r s t g c, of 2]
    by (simp add: identify_def numeral_3_eq_3 del: identify_loop.simps)
qed

section \<open>Benchmark metrics\<close>

definition count_inputs :: "token list \<Rightarrow> nat" where
  "count_inputs msgs = length msgs div 2"

definition count_resets :: "token list \<Rightarrow> nat" where
  "count_resets msgs = count_list msgs ''RESET''"

text \<open>The number of \<open>send\<close> calls in the log of a run.\<close>

definition sends :: "call list \<Rightarrow> nat" where
  "sends cs = length (filter (\<lambda>c. case c of Send _ \<Rightarrow> True | _ \<Rightarrow> False) cs)"

text \<open>No token of the tree is the word that \<open>reset\<close> writes into the transcript.\<close>

definition reset_free :: "model_tree \<Rightarrow> bool" where
  "reset_free t = (\<forall>p \<in> set (map fst (nodes t)). ''RESET'' \<notin> set p)"

text \<open>What the transcript of the benchmark connector holds, against the log of calls.\<close>

definition balanced :: "'l world \<Rightarrow> bool" where
  "balanced w =
     (case connector w of
        BenchmarkConnector b \<Rightarrow>
          length (messages b) = 2 * (sends (calls w) + count_list (calls w) Reset)
      | TLSAttackerConnector _ \<Rightarrow> False)"

definition resets_visible :: "'l world \<Rightarrow> bool" where
  "resets_visible w =
     (case connector w of
        BenchmarkConnector b \<Rightarrow>
          reset_free (tree w) \<and> count_list (messages b) ''RESET'' = count_list (calls w) Reset
      | TLSAttackerConnector _ \<Rightarrow> False)"

lemma sends_append [simp]: "sends (xs @ ys) = sends xs + sends ys"
  by (simp add: sends_def)

lemma filter_paths: "set (map fst (filter Q xs)) \<subseteq> set (map fst xs)"
  by auto

lemma prune_models_paths:
  "set (map fst (nodes (prune_models t removed))) \<subseteq> set (map fst (nodes t))"
proof -
  have "map fst (map (\<lambda>(p, ms). (p, ms - removed)) (nodes t)) = map fst (nodes t)"
    by (simp add: case_prod_beta comp_def)
  then show ?thesis
    using filter_paths[of _ "map (\<lambda>(p, ms). (p, ms - removed)) (nodes t)"]
    by (simp add: prune_models_def Let_def)
qed

lemma condense_step_paths: "set (map fst (nodes (condense_step t))) \<subseteq> set (map fst (nodes t))"
  using filter_paths[of _ "nodes t"] by (simp add: condense_step_def Let_def)

lemma condense_rounds_paths:
  "set (map fst (nodes (condense_rounds n t))) \<subseteq> set (map fst (nodes t))"
proof (induction n arbitrary: t)
  case 0
  show ?case by simp
next
  case (Suc n)
  have "set (map fst (nodes (condense_rounds n (condense_step t))))
          \<subseteq> set (map fst (nodes (condense_step t)))" by (rule Suc.IH)
  then show ?case using condense_step_paths[of t] by auto
qed

lemma condense_paths: "set (map fst (nodes (condense t))) \<subseteq> set (map fst (nodes t))"
  unfolding condense_def by (rule condense_rounds_paths)

lemma reset_free_mutation:
  "reset_free t \<Longrightarrow> reset_free (condense (prune_models t removed))"
  unfolding reset_free_def using condense_paths[of "prune_models t removed"] prune_models_paths[of t removed]
  by blast

lemma children_paths: "set (children t p) \<subseteq> set (map fst (nodes t))"
  by (auto simp: children_def)

lemma reset_free_child_last:
  assumes "reset_free t" and "q \<in> set (children t p)"
  shows "last q \<noteq> ''RESET''"
proof -
  have "q \<in> set (map fst (nodes t))" using assms(2) children_paths by blast
  then have "''RESET'' \<notin> set q" using assms(1) by (auto simp: reset_free_def)
  moreover have "q \<noteq> []" using assms(2) by (auto simp: children_def)
  ultimately show ?thesis using last_in_set by metis
qed

lemma benchmark_send_Some:
  assumes "benchmark_send t b m = (Inr (Some r), b')"
  shows "messages b' = messages b @ [m, r] \<and>
         (\<exists>n \<in> set (children t (current_node b @ [m])). r = last n)"
proof -
  from assms obtain ns n where g: "getitem t (current_node b @ [m]) = Inr ns"
    and f: "find (\<lambda>neighbor. target b \<in> models (subtree t neighbor)) ns = Some n"
    and r: "r = last n" and b': "b' = b\<lparr>messages := messages b @ [m, r],
                                          current_node := current_node b @ [m, r]\<rparr>"
    by (auto simp: benchmark_send_def Let_def split: sum.splits option.splits)
  have "n \<in> set ns" using f find_Some_mem by fastforce
  moreover have "ns = children t (current_node b @ [m])" using g by (rule getitem_Inr_children)
  ultimately show ?thesis using r b' by auto
qed

lemma send_balanced:
  assumes "balanced w" and "send tp w m = (Inr (Some r), w1)"
  shows "balanced w1"
proof -
  from assms(1) obtain b where b: "connector w = BenchmarkConnector b"
    and l: "length (messages b) = 2 * (sends (calls w) + count_list (calls w) Reset)"
    by (auto simp: balanced_def split: connector.splits)
  from assms(2) b obtain b' where s: "benchmark_send (tree w) b m = (Inr (Some r), b')"
    and w1: "w1 = w\<lparr>calls := calls w @ [Send m], connector := BenchmarkConnector b'\<rparr>"
    by (auto simp: send_def Let_def split: prod.splits)
  have "messages b' = messages b @ [m, r]" using benchmark_send_Some[OF s] by simp
  then show ?thesis using l w1 by (simp add: balanced_def sends_def)
qed

lemma send_resets_visible:
  assumes "resets_visible w" and "select selector (tree w) node weight_function = Inr send_node"
    and "send tp w (last send_node) = (Inr (Some r), w1)"
  shows "resets_visible w1"
proof -
  from assms(1) obtain b where b: "connector w = BenchmarkConnector b"
    and f: "reset_free (tree w)"
    and l: "count_list (messages b) ''RESET'' = count_list (calls w) Reset"
    by (auto simp: resets_visible_def split: connector.splits)
  from assms(3) b obtain b' where s: "benchmark_send (tree w) b (last send_node) = (Inr (Some r), b')"
    and w1: "w1 = w\<lparr>calls := calls w @ [Send (last send_node)], connector := BenchmarkConnector b'\<rparr>"
    by (auto simp: send_def Let_def split: prod.splits)
  have m: "messages b' = messages b @ [last send_node, r]"
    using benchmark_send_Some[OF s] by simp
  obtain n where n: "n \<in> set (children (tree w) (current_node b @ [last send_node]))"
    and rn: "r = last n"
    using benchmark_send_Some[OF s] by auto
  have r: "r \<noteq> ''RESET''" unfolding rn by (rule reset_free_child_last[OF f n])
  have "send_node \<in> set (children (tree w) node)" using assms(2) by (rule select_child)
  then have "last send_node \<noteq> ''RESET''" by (rule reset_free_child_last[OF f])
  then show ?thesis using l w1 m r f by (simp add: resets_visible_def)
qed

lemma descent_loop_preserves:
  "descent_loop tp selector weight_function lvs w node = (Inr (Some leaf), w1) \<Longrightarrow>
   P w \<Longrightarrow>
   (\<And>w node send_node r w1. P w \<Longrightarrow>
       select selector (tree w) node weight_function = Inr send_node \<Longrightarrow>
       send tp w (last send_node) = (Inr (Some r), w1) \<Longrightarrow> P w1) \<Longrightarrow>
   P w1"
proof (induction tp selector weight_function lvs w node rule: descent_loop.induct)
  case (1 tp selector weight_function lvs w node)
  note step = "1.prems"(3)
  from "1.prems"(1) obtain send_node where
    sel: "select selector (tree w) node weight_function = Inr send_node"
    by (subst (asm) descent_loop.simps) (auto split: sum.splits)
  obtain r2 w2 where s: "send tp w (last send_node) = (r2, w2)"
    by (cases "send tp w (last send_node)")
  from "1.prems"(1) sel s obtain response cs where r2: "r2 = Inr (Some response)"
    and g: "getitem (tree w2) (send_node @ [response]) = Inr cs"
    by (subst (asm) descent_loop.simps) (auto simp: Let_def split: sum.splits option.splits)
  have P2: "P w2" using step[OF "1.prems"(2) sel] s r2 by simp
  show ?case
  proof (cases "send_node @ [response] \<in> set lvs")
    case True
    then have "w1 = w2" using "1.prems"(1) sel s r2 g
      by (subst (asm) descent_loop.simps) simp
    then show ?thesis using P2 by simp
  next
    case False
    then have d: "descent_loop tp selector weight_function lvs w2 (send_node @ [response]) =
               (Inr (Some leaf), w1)"
      using "1.prems"(1) sel s r2 g by (subst (asm) descent_loop.simps) simp
    show ?thesis
      by (rule "1.IH"[OF sel s[symmetric] r2 refl refl g False d P2]) (rule step)
  qed
qed

lemma reset_balanced:
  assumes "balanced w" and "reset tp w = (Inr u, w1)"
  shows "balanced w1"
  using assms
  by (auto simp: balanced_def reset_def benchmark_reset_def Let_def sends_def
      split: connector.splits)

lemma reset_resets_visible:
  assumes "resets_visible w" and "reset tp w = (Inr u, w1)"
  shows "resets_visible w1"
  using assms
  by (auto simp: resets_visible_def reset_def benchmark_reset_def Let_def
      split: connector.splits)

lemma mutation_balanced: "balanced w \<Longrightarrow> balanced (w\<lparr>tree := t\<rparr>)"
  by (cases "connector w") (simp_all add: balanced_def)

lemma mutation_resets_visible:
  "resets_visible w \<Longrightarrow>
   resets_visible (w\<lparr>tree := condense (prune_models (tree w) removed)\<rparr>)"
  by (cases "connector w") (simp_all add: resets_visible_def reset_free_mutation)

lemma identify_loop_preserves:
  assumes "identify_loop tp selector weight_function rounds w =
             Some (Inr (CandidatesTranscript ms msgs), w')"
    and "P w"
    and send_step: "\<And>w node send_node r w1. P w \<Longrightarrow>
           select selector (tree w) node weight_function = Inr send_node \<Longrightarrow>
           send tp w (last send_node) = (Inr (Some r), w1) \<Longrightarrow> P w1"
    and mutation: "\<And>w removed. P w \<Longrightarrow>
           P (w\<lparr>tree := condense (prune_models (tree w) removed)\<rparr>)"
    and reset_step: "\<And>w w1. P w \<Longrightarrow> reset tp w = (Inr (), w1) \<Longrightarrow> P w1"
  shows "\<exists>w3 b. P w3 \<and> connector w3 = BenchmarkConnector b \<and> msgs = messages b \<and>
           calls w' = calls w3 @ [Close]"
  using assms(1,2)
proof (induction rounds arbitrary: w)
  case 0
  then show ?case by simp
next
  case (Suc rounds)
  obtain d w1 where d: "descent tp selector weight_function w = (d, w1)"
    by (cases "descent tp selector weight_function w")
  from Suc.prems(1) d obtain leaf_node leaf_models where
    leaf: "d = Inr (Some leaf_node)"
    and lm: "map_of (nodes (tree w1)) leaf_node = Some leaf_models"
    by (auto split: sum.splits option.splits prod.splits)
  have d': "descent_loop tp selector weight_function (leaves (tree w)) w [] =
              (Inr (Some leaf_node), w1)"
    using d leaf by (simp add: descent_def)
  have P1: "P w1"
    by (rule descent_loop_preserves[where P = P, OF d' Suc.prems(2)]) (rule send_step)
  define w3 where
    "w3 = w1\<lparr>tree := condense (prune_models (tree w1) (models (tree w1) - leaf_models))\<rparr>"
  have P3: "P w3" unfolding w3_def using P1 by (rule mutation)
  show ?case
  proof (cases "len (tree w3) = 0")
    case True
    obtain c w4 where c: "close tp w3 = (c, w4)" by (cases "close tp w3")
    then have c4: "calls w4 = calls w3 @ [Close]" by (rule close_calls)
    from Suc.prems(1) d leaf lm True c obtain b where
      "c = Inr ()" "connector w4 = BenchmarkConnector b" "msgs = messages b" "w' = w4"
      by (auto simp: w3_def Let_def split: sum.splits connector.splits)
    moreover from this c have "connector w3 = BenchmarkConnector b"
      by (auto simp: close_def Let_def split: connector.splits sum.splits)
    ultimately show ?thesis using P3 c4 by blast
  next
    case False
    obtain c w4 where c: "reset tp w3 = (c, w4)" by (cases "reset tp w3")
    from Suc.prems(1) d leaf lm False c have ci: "c = Inr ()"
      and i: "identify_loop tp selector weight_function rounds w4 =
                Some (Inr (CandidatesTranscript ms msgs), w')"
      by (auto simp: w3_def Let_def split: sum.splits)
    have "P w4" using P3 c ci reset_step by blast
    then show ?thesis using Suc.IH[OF i] by blast
  qed
qed

text \<open>Two inputs: \<open>A\<close> tells model 1 from models 2 and 3, \<open>B\<close> tells model 3 from models
  1 and 2.\<close>

definition two_round_tree :: model_tree where
  "two_round_tree =
     \<lparr>nodes = [([], {1, 2, 3}),
               ([''A''], {1, 2, 3}), ([''A'', ''0''], {1}), ([''A'', ''1''], {2, 3}),
               ([''B''], {1, 2, 3}), ([''B'', ''0''], {1, 2}), ([''B'', ''1''], {3})],
      root = [], model_mapping = no_implementations\<rparr>"

lemma two_round_run:
  "identify no_transport 3 two_round_tree (new_benchmark_connector 3) FirstSel
     model_weight_equal =
   Some (Inr (CandidatesTranscript {3} [''A'', ''1'', ''RESET'', [], ''B'', ''1'']),
         \<lparr>tree = two_round_tree\<lparr>nodes := []\<rparr>,
            connector = BenchmarkConnector
              \<lparr>target = 3, messages = [''A'', ''1'', ''RESET'', [], ''B'', ''1''],
                 current_node = [''B'', ''1'']\<rparr>,
            calls = [Send ''A'', Reset, Send ''B'', Close]\<rparr>)"
  by (simp add: identify_def numeral_3_eq_3 descent_def always_first_selector_def connector_defs
      two_round_tree_def tree_defs mutation_defs Let_def insert_Diff_if)


text \<open>A tree one of whose input tokens is the word \<open>RESET\<close>.\<close>

definition reset_token_tree :: model_tree where
  "reset_token_tree =
     \<lparr>nodes = [([], {1, 2}), ([''RESET''], {1, 2}),
               ([''RESET'', ''0''], {1}), ([''RESET'', ''1''], {2})],
      root = [], model_mapping = no_implementations\<rparr>"

lemma reset_token_run:
  "identify no_transport 3 reset_token_tree (new_benchmark_connector 1) FirstSel
     model_weight_equal =
   Some (Inr (CandidatesTranscript {1} [''RESET'', ''0'']),
         \<lparr>tree = reset_token_tree\<lparr>nodes := []\<rparr>,
            connector = BenchmarkConnector
              \<lparr>target = 1, messages = [''RESET'', ''0''],
                 current_node = [''RESET'', ''0'']\<rparr>,
            calls = [Send ''RESET'', Close]\<rparr>)"
  by (simp add: identify_def numeral_3_eq_3 descent_def always_first_selector_def connector_defs
      reset_token_tree_def tree_defs mutation_defs Let_def insert_Diff_if)

text \<open>
  C7, amended: for a benchmark run that ends with a result, the \<open>inputs\<close> metric is the
  number of \<open>send\<close> calls plus the number of \<open>reset\<close> calls of the run (a reset
  writes a pair into the transcript, as a sent input would); and when no token of the tree
  is the word \<open>RESET\<close>, the \<open>resets\<close> metric is the number of \<open>reset\<close> calls.
\<close>

theorem benchmark_metrics:
  fixes tp :: "'l transport"
  assumes "identify tp rounds tr (new_benchmark_connector tgt) selector weight_function =
             Some (Inr (CandidatesTranscript ms msgs), w')"
  shows "count_inputs msgs = sends (calls w') + count_list (calls w') Reset \<and>
         (reset_free tr \<longrightarrow> count_resets msgs = count_list (calls w') Reset)"
proof -
  let ?w = "\<lparr>tree = tr, connector = new_benchmark_connector tgt, calls = []\<rparr>"
  have run: "identify_loop tp selector weight_function rounds ?w =
               Some (Inr (CandidatesTranscript ms msgs), w')"
    using assms by (simp add: identify_def)
  have b0: "balanced ?w" by (simp add: balanced_def new_benchmark_connector_def sends_def)
  have "\<exists>(w3 :: 'l world) b. balanced w3 \<and> connector w3 = BenchmarkConnector b \<and> msgs = messages b \<and>
           calls w' = calls w3 @ [Close]"
  proof (rule identify_loop_preserves[where P = balanced, OF run b0])
    show "\<And>w node send_node r w1. balanced w \<Longrightarrow>
           select selector (tree w) node weight_function = Inr send_node \<Longrightarrow>
           send tp w (last send_node) = (Inr (Some r), w1) \<Longrightarrow> balanced w1"
      by (rule send_balanced)
    show "\<And>w removed. balanced w \<Longrightarrow>
           balanced (w\<lparr>tree := condense (prune_models (tree w) removed)\<rparr>)"
      by (rule mutation_balanced)
    show "\<And>w w1. balanced w \<Longrightarrow> reset tp w = (Inr (), w1) \<Longrightarrow> balanced w1"
      by (rule reset_balanced)
  qed
  then obtain w3 :: "'l world" and b where "balanced w3" "connector w3 = BenchmarkConnector b"
    "msgs = messages b" "calls w' = calls w3 @ [Close]" by blast
  then have inputs: "count_inputs msgs = sends (calls w') + count_list (calls w') Reset"
    by (simp add: balanced_def count_inputs_def sends_def)
  have resets: "count_resets msgs = count_list (calls w') Reset" if free: "reset_free tr"
  proof -
    have r0: "resets_visible ?w"
      using free by (simp add: resets_visible_def new_benchmark_connector_def)
    have "\<exists>(w3 :: 'l world) b. resets_visible w3 \<and> connector w3 = BenchmarkConnector b \<and>
            msgs = messages b \<and> calls w' = calls w3 @ [Close]"
    proof (rule identify_loop_preserves[where P = resets_visible, OF run r0])
      show "\<And>w node send_node r w1. resets_visible w \<Longrightarrow>
             select selector (tree w) node weight_function = Inr send_node \<Longrightarrow>
             send tp w (last send_node) = (Inr (Some r), w1) \<Longrightarrow> resets_visible w1"
        by (rule send_resets_visible)
      show "\<And>w removed. resets_visible w \<Longrightarrow>
             resets_visible (w\<lparr>tree := condense (prune_models (tree w) removed)\<rparr>)"
        by (rule mutation_resets_visible)
      show "\<And>w w1. resets_visible w \<Longrightarrow> reset tp w = (Inr (), w1) \<Longrightarrow>
             resets_visible w1"
        by (rule reset_resets_visible)
    qed
    then obtain w3 :: "'l world" and b where "resets_visible w3" "connector w3 = BenchmarkConnector b"
      "msgs = messages b" "calls w' = calls w3 @ [Close]" by blast
    then show ?thesis by (simp add: resets_visible_def count_resets_def)
  qed
  show ?thesis using inputs resets by blast
qed

theorem benchmark_metrics_witness:
  "reset_free two_round_tree \<and>
   count_inputs [''A'', ''1'', ''RESET'', [], ''B'', ''1''] =
     sends [Send ''A'', Reset, Send ''B'', Close] + count_list [Send ''A'', Reset, Send ''B'', Close] Reset \<and>
   count_resets [''A'', ''1'', ''RESET'', [], ''B'', ''1''] =
     count_list [Send ''A'', Reset, Send ''B'', Close] Reset"
proof -
  have free: "reset_free two_round_tree" by (simp add: reset_free_def two_round_tree_def)
  show ?thesis using benchmark_metrics[OF two_round_run] free by simp
qed

text \<open>
  The claim as stated fails: a run with one reset sends two inputs and reports three, and
  a tree with an input token \<open>RESET\<close> reports a reset that was never made.
\<close>

theorem inputs_metric_counts_resets:
  "identify no_transport 3 two_round_tree (new_benchmark_connector 3) FirstSel
     model_weight_equal =
   Some (Inr (CandidatesTranscript {3} [''A'', ''1'', ''RESET'', [], ''B'', ''1'']),
         \<lparr>tree = two_round_tree\<lparr>nodes := []\<rparr>,
            connector = BenchmarkConnector
              \<lparr>target = 3, messages = [''A'', ''1'', ''RESET'', [], ''B'', ''1''],
                 current_node = [''B'', ''1'']\<rparr>,
            calls = [Send ''A'', Reset, Send ''B'', Close]\<rparr>) \<and>
   count_inputs [''A'', ''1'', ''RESET'', [], ''B'', ''1''] = 3 \<and>
   sends [Send ''A'', Reset, Send ''B'', Close] = 2 \<and>
   identify no_transport 3 reset_token_tree (new_benchmark_connector 1) FirstSel
     model_weight_equal =
   Some (Inr (CandidatesTranscript {1} [''RESET'', ''0'']),
         \<lparr>tree = reset_token_tree\<lparr>nodes := []\<rparr>,
            connector = BenchmarkConnector
              \<lparr>target = 1, messages = [''RESET'', ''0''],
                 current_node = [''RESET'', ''0'']\<rparr>,
            calls = [Send ''RESET'', Close]\<rparr>) \<and>
   count_resets [''RESET'', ''0''] = 1 \<and>
   count_list [Send ''RESET'', Close] Reset = 0"
  using two_round_run reset_token_run
  by (simp add: count_inputs_def count_resets_def sends_def)

section \<open>Selectors on a zero total weight\<close>

lemma map_err_Inl:
  "\<exists>x \<in> set xs. f x = Inl e \<Longrightarrow> \<forall>x \<in> set xs. \<forall>e'. f x = Inl e' \<longrightarrow> e' = e \<Longrightarrow>
   map_err f xs = Inl e"
proof (induction xs)
  case Nil
  then show ?case by simp
next
  case (Cons x xs)
  show ?case
  proof (cases "f x")
    case (Inl e')
    then show ?thesis using Cons.prems(2) by simp
  next
    case (Inr y)
    then have "\<exists>x \<in> set xs. f x = Inl e" using Cons.prems(1) by auto
    then have "map_err f xs = Inl e" using Cons.IH Cons.prems(2) by simp
    then show ?thesis using Inr by simp
  qed
qed

lemma child_getitem: "n \<in> set (children t p) \<Longrightarrow> getitem t n = Inr (children t n)"
proof -
  assume "n \<in> set (children t p)"
  then have "n \<in> fst ` set (nodes t)" by (auto simp: children_def)
  then have "map_of (nodes t) n \<noteq> None" by (simp add: map_of_eq_None_iff)
  then show ?thesis by (auto simp: getitem_def)
qed

lemma gini_impurity_zero_total:
  assumes "n \<in> set (children t p)"
  shows "gini_impurity t wt 0 n = (if children t n = [] then Inr 1 else Inl ZeroDivisionError)"
proof -
  have "output_weights t wt n =
          Inr (map (\<lambda>output_node. tree_weight (subtree t output_node) (model_mapping t) wt)
                 (children t n))"
    using child_getitem[OF assms] by (simp add: output_weights_def)
  then show ?thesis
    by (cases "children t n") (simp_all add: gini_impurity_def py_div_def py_sum_Nil py_sub_1_0)
qed

lemma entropy_metric_zero_total:
  assumes "n \<in> set (children t p)"
  shows "entropy_metric t wt 0 n = (if children t n = [] then Inr 0 else Inl ZeroDivisionError)"
proof -
  have "output_weights t wt n =
          Inr (map (\<lambda>output_node. tree_weight (subtree t output_node) (model_mapping t) wt)
                 (children t n))"
    using child_getitem[OF assms] by (simp add: output_weights_def)
  then show ?thesis
    by (cases "children t n") (simp_all add: entropy_metric_def py_div_def py_sum_Nil)
qed

text \<open>
  C4, amended: when the total weight of the current node's subtree is zero and some
  candidate input edge has a response branch, the Gini selector and the entropy selector
  both fail, and they fail with the \<open>ZeroDivisionError\<close> that the division by the total
  weight raises; there is no dedicated error for this condition.
\<close>

theorem zero_total_weight_divides_by_zero:
  assumes "tree_weight (subtree t node) (model_mapping t) wt = 0"
    and "getitem t node = Inr input_nodes"
    and "\<exists>n \<in> set input_nodes. children t n \<noteq> []"
  shows "gini_selector t node wt = Inl ZeroDivisionError \<and>
         entropy_selector t node wt = Inl ZeroDivisionError"
proof -
  have ins: "input_nodes = children t node" using assms(2) by (rule getitem_Inr_children)
  let ?g = "\<lambda>input_node. case gini_impurity t wt 0 input_node of
                            Inl e \<Rightarrow> Inl e | Inr v \<Rightarrow> Inr (input_node, v)"
  let ?h = "\<lambda>input_node. case entropy_metric t wt 0 input_node of
                            Inl e \<Rightarrow> Inl e | Inr v \<Rightarrow> Inr (input_node, v)"
  have gi: "gini_impurity t wt 0 x = (if children t x = [] then Inr 1 else Inl ZeroDivisionError)"
    if "x \<in> set input_nodes" for x
    using that ins gini_impurity_zero_total by simp
  have ei: "entropy_metric t wt 0 x = (if children t x = [] then Inr 0 else Inl ZeroDivisionError)"
    if "x \<in> set input_nodes" for x
    using that ins entropy_metric_zero_total by simp
  obtain n where n: "n \<in> set input_nodes" "children t n \<noteq> []" using assms(3) by blast
  have "?g n = Inl ZeroDivisionError" using n gi by simp
  then have g1: "\<exists>x \<in> set input_nodes. ?g x = Inl ZeroDivisionError" using n(1) by blast
  have g2: "\<forall>x \<in> set input_nodes. \<forall>e'. ?g x = Inl e' \<longrightarrow> e' = ZeroDivisionError"
    using gi by (auto split: if_splits)
  have "?h n = Inl ZeroDivisionError" using n ei by simp
  then have h1: "\<exists>x \<in> set input_nodes. ?h x = Inl ZeroDivisionError" using n(1) by blast
  have h2: "\<forall>x \<in> set input_nodes. \<forall>e'. ?h x = Inl e' \<longrightarrow> e' = ZeroDivisionError"
    using ei by (auto split: if_splits)
  have "map_err ?g input_nodes = Inl ZeroDivisionError" using g1 g2 by (rule map_err_Inl)
  moreover have "map_err ?h input_nodes = Inl ZeroDivisionError" using h1 h2 by (rule map_err_Inl)
  ultimately show ?thesis
    using assms(1,2) by (simp add: gini_selector_def entropy_selector_def)
qed

theorem zero_total_weight_divides_by_zero_witness:
  "gini_selector single_round_tree [] (\<lambda>_. 0) = Inl ZeroDivisionError \<and>
   entropy_selector single_round_tree [] (\<lambda>_. 0) = Inl ZeroDivisionError"
proof -
  have w: "tree_weight (subtree single_round_tree []) (model_mapping single_round_tree) (\<lambda>_. 0) = 0"
    by (simp add: tree_weight_def)
  have g: "getitem single_round_tree [] = Inr [[''A'']]"
    by (simp add: single_round_tree_def tree_defs)
  have c: "\<exists>n \<in> set [[''A'']]. children single_round_tree n \<noteq> []"
    by (simp add: single_round_tree_def tree_defs)
  show ?thesis by (rule zero_total_weight_divides_by_zero[OF w g c])
qed

text \<open>
  The claim as stated fails: under a weight function that gives every model the weight
  zero, the selectors do perform the division by zero and end with the
  \<open>ZeroDivisionError\<close> it raises.
\<close>

theorem no_dedicated_weighting_error:
  "tree_weight (subtree two_round_tree []) (model_mapping two_round_tree) (\<lambda>_. 0) = 0 \<and>
   gini_selector two_round_tree [] (\<lambda>_. 0) = Inl ZeroDivisionError \<and>
   entropy_selector two_round_tree [] (\<lambda>_. 0) = Inl ZeroDivisionError"
  by (simp add: gini_selector_def gini_impurity_def entropy_selector_def entropy_metric_def
      output_weights_def tree_weight_def py_div_def two_round_tree_def tree_defs)

section \<open>The choice of the Gini selector\<close>

lemma map_err_Inr_values:
  "map_err (\<lambda>x. case g x of Inl e \<Rightarrow> Inl e | Inr v \<Rightarrow> Inr (x, v)) xs = Inr ys \<Longrightarrow>
   (k, v) \<in> set ys \<Longrightarrow> g k = Inr v"
  by (induction xs arbitrary: ys) (auto split: sum.splits)

lemma update_set_subset: "set (AList.update k v al) \<subseteq> insert (k, v) (set al)"
  by (induction al) auto

lemma fold_update_set:
  "set (fold (\<lambda>(k, v). AList.update k v) es al) \<subseteq> set es \<union> set al"
proof (induction es arbitrary: al)
  case Nil
  show ?case by simp
next
  case (Cons e es)
  obtain k v where e: "e = (k, v)" by (cases e)
  have "set (fold (\<lambda>(k, v). AList.update k v) es (AList.update k v al))
          \<subseteq> set es \<union> set (AList.update k v al)" by (rule Cons.IH)
  then show ?case using update_set_subset[of k v al] e by auto
qed

lemma fold_update_set2:
  "set (fold (\<lambda>k. AList.update k (f k)) ks al) \<subseteq> (\<lambda>k. (k, f k)) ` set ks \<union> set al"
proof (induction ks arbitrary: al)
  case Nil
  show ?case by simp
next
  case (Cons k ks)
  have "set (fold (\<lambda>k. AList.update k (f k)) ks (AList.update k (f k) al))
          \<subseteq> (\<lambda>k. (k, f k)) ` set ks \<union> set (AList.update k (f k) al)" by (rule Cons.IH)
  then show ?case using update_set_subset[of k "f k" al] by auto
qed

lemma min_by_le: "key (min_by key b xs) \<le> key b \<and> (\<forall>x \<in> set xs. key (min_by key b xs) \<le> key x)"
proof (induction xs arbitrary: b)
  case Nil
  show ?case by simp
next
  case (Cons x xs)
  show ?case using Cons.IH[of "if key x < key b then x else b"] by (auto split: if_splits)
qed

lemma hd_tl_min_by_le: "xs \<noteq> [] \<Longrightarrow> x \<in> set xs \<Longrightarrow> key (min_by key (hd xs) (tl xs)) \<le> key x"
  using min_by_le[of key "hd xs" "tl xs"] by (cases xs) auto

text \<open>
  What the Gini selector does ensure: the input edge it returns has the greatest computed
  impurity among the candidate input edges, and among the candidates whose computed
  impurity equals that greatest value its subtree has the fewest nodes. The impurities
  compared are the rounded numbers that the selector computes.
\<close>

theorem gini_tie_break:
  assumes "gini_selector t node wt = Inr selected"
    and "total_weight = tree_weight (subtree t node) (model_mapping t) wt"
  shows "\<exists>v. gini_impurity t wt total_weight selected = Inr v \<and>
           (\<forall>n \<in> set (children t node). \<forall>u. gini_impurity t wt total_weight n = Inr u \<longrightarrow>
              u \<le> v \<and> (u = v \<longrightarrow> len (subtree t selected) \<le> len (subtree t n)))"
proof -
  let ?g = "gini_impurity t wt total_weight"
  from assms obtain ins es where g: "getitem t node = Inr ins"
    and m: "map_err (\<lambda>input_node. case ?g input_node of
                       Inl e \<Rightarrow> Inl e | Inr v \<Rightarrow> Inr (input_node, v)) ins = Inr es"
    by (auto simp: gini_selector_def Let_def split: sum.splits)
  have ins: "ins = children t node" using g by (rule getitem_Inr_children)
  have keys: "map fst es = ins" using m by (rule map_err_Inr_map)
  define imp where "imp = fold (\<lambda>(k, v). AList.update k v) es []"
  have ik: "fst ` set imp = set ins"
    unfolding imp_def fold_update_keys using keys
    by (metis empty_set image_empty list.set_map sup_bot.right_neutral)
  have iv: "?g k = Inr v" if "(k, v) \<in> set imp" for k v
  proof -
    have "(k, v) \<in> set es" using that fold_update_set[of es "[]"] by (auto simp: imp_def)
    then show ?thesis using m map_err_Inr_values by fast
  qed
  define mx where "mx = Max (set (map snd imp))"
  define cand where "cand = map fst (filter (\<lambda>(node, value). value = mx) imp)"
  from assms g m have ne: "imp \<noteq> []"
    by (auto simp: gini_selector_def Let_def imp_def split: if_splits)
  have mx_in: "mx \<in> set (map snd imp)" unfolding mx_def using ne by (intro Max_in) auto
  have mx_ge: "v \<le> mx" if "(k, v) \<in> set imp" for k v
    unfolding mx_def using that by (intro Max_ge) force+
  have cand_iff: "k \<in> set cand \<longleftrightarrow> (k, mx) \<in> set imp" for k
    unfolding cand_def by force
  have cne: "cand \<noteq> []" using mx_in cand_iff by (cases cand) auto
  define ss where "ss = fold (\<lambda>node. AList.update node (len (subtree t node))) cand []"
  from assms g m ne have r: "selected =
      (if length cand > 1 then fst (min_by snd (hd ss) (tl ss)) else hd cand)"
    by (auto simp: gini_selector_def Let_def imp_def cand_def mx_def ss_def split: if_splits)
  have sk: "fst ` set ss = set cand" unfolding ss_def by (simp add: fold_update_keys2)
  have sv: "s = len (subtree t k)" if "(k, s) \<in> set ss" for k s
    using that fold_update_set2[of "\<lambda>node. len (subtree t node)" cand "[]"]
    by (auto simp: ss_def)
  have sne: "ss \<noteq> []" using sk cne by auto
  have sel_cand: "selected \<in> set cand"
  proof (cases "length cand > 1")
    case True
    have "min_by snd (hd ss) (tl ss) \<in> set ss" using sne by (rule hd_tl_min_by_mem)
    then show ?thesis using r True sk by auto
  next
    case False
    then show ?thesis using r cne by (cases cand) auto
  qed
  have sel_min: "len (subtree t selected) \<le> len (subtree t n)" if "n \<in> set cand" for n
  proof (cases "length cand > 1")
    case True
    have "n \<in> fst ` set ss" using that sk by simp
    then obtain s where ns: "(n, s) \<in> set ss" by auto
    obtain k s' where b: "min_by snd (hd ss) (tl ss) = (k, s')"
      by (cases "min_by snd (hd ss) (tl ss)")
    have "min_by snd (hd ss) (tl ss) \<in> set ss" using sne by (rule hd_tl_min_by_mem)
    then have "(k, s') \<in> set ss" using b by simp
    then have s': "s' = len (subtree t k)" by (rule sv)
    have k: "selected = k" using r True b by simp
    have "snd (min_by snd (hd ss) (tl ss)) \<le> snd (n, s)"
      using sne ns by (rule hd_tl_min_by_le)
    then have "s' \<le> s" using b by simp
    moreover have "s = len (subtree t n)" using ns by (rule sv)
    ultimately show ?thesis using s' k by simp
  next
    case False
    then have "cand = [selected]" using r cne by (cases cand) auto
    then show ?thesis using that by simp
  qed
  have gsel: "?g selected = Inr mx" using sel_cand cand_iff iv by blast
  have "u \<le> mx \<and> (u = mx \<longrightarrow> len (subtree t selected) \<le> len (subtree t n))"
    if n: "n \<in> set (children t node)" and u: "?g n = Inr u" for n u
  proof -
    have "n \<in> fst ` set imp" using n ik ins by simp
    then obtain v where nv: "(n, v) \<in> set imp" by auto
    then have "?g n = Inr v" by (rule iv)
    then have uv: "v = u" using u by simp
    then have "u \<le> mx" using nv mx_ge by blast
    moreover have "len (subtree t selected) \<le> len (subtree t n)" if "u = mx"
      using that nv uv cand_iff sel_min by blast
    ultimately show ?thesis by blast
  qed
  then show ?thesis using gsel by blast
qed

text \<open>Two inputs that split the two models alike; below the first response to \<open>A\<close> the
  tree goes on with a chain.\<close>

definition tie_tree :: model_tree where
  "tie_tree =
     \<lparr>nodes = [([], {1, 2}),
               ([''A''], {1, 2}), ([''A'', ''0''], {1}), ([''A'', ''1''], {2}),
               ([''A'', ''0'', ''C''], {1}), ([''A'', ''0'', ''C'', ''0''], {1}),
               ([''B''], {1, 2}), ([''B'', ''0''], {1}), ([''B'', ''1''], {2})],
      root = [], model_mapping = no_implementations\<rparr>"

lemma tie_getitem:
  "getitem tie_tree [] = Inr [[''A''], [''B'']]"
  "getitem tie_tree [''A''] = Inr [[''A'', ''0''], [''A'', ''1'']]"
  "getitem tie_tree [''B''] = Inr [[''B'', ''0''], [''B'', ''1'']]"
  by (simp_all add: tie_tree_def getitem_def children_def)

lemma tie_weight:
  "tree_weight (subtree tie_tree []) (model_mapping tie_tree) model_weight_equal = 2"
  "tree_weight (subtree tie_tree [''A'', ''0'']) (model_mapping tie_tree) model_weight_equal = 1"
  "tree_weight (subtree tie_tree [''A'', ''1'']) (model_mapping tie_tree) model_weight_equal = 1"
  "tree_weight (subtree tie_tree [''B'', ''0'']) (model_mapping tie_tree) model_weight_equal = 1"
  "tree_weight (subtree tie_tree [''B'', ''1'']) (model_mapping tie_tree) model_weight_equal = 1"
  by (simp_all add: tie_tree_def tree_weight_def subtree_def models_def model_weight_equal_def)

lemma tie_len:
  "len (subtree tie_tree [''A'']) = 5"
  "len (subtree tie_tree [''B'']) = 3"
  by (simp_all add: tie_tree_def subtree_def len_def)

text \<open>Condensing this tree collapses the chain below the first response to \<open>A\<close> into
  that response, which keeps its model and becomes a leaf; the inputs, which both still
  tell the two models apart, stay.\<close>

lemma condense_collapses_chain:
  "condense tie_tree =
   tie_tree\<lparr>nodes := [([], {1, 2}),
                          ([''A''], {1, 2}), ([''A'', ''0''], {1}), ([''A'', ''1''], {2}),
                          ([''B''], {1, 2}), ([''B'', ''0''], {1}), ([''B'', ''1''], {2})]\<rparr>"
  by (simp add: tie_tree_def tree_defs mutation_defs Let_def)

lemma f64_div_1_2: "py_div 1 2 = Inr (1 / 2)"
  unfolding py_div_def
  by (subst round64_eval[where e = "-1"]) (simp_all add: rne_def power_int_minus)

lemma f64_square_1_2: "py_square (1 / 2) = 1 / 4"
  unfolding py_square_def
  by (subst round64_eval[where e = "-2"]) (simp_all add: rne_def power_int_minus)

lemma f64_sum_t1: "py_add 0 (1 / 4) = 1 / 4"
  unfolding py_add_def
  by (subst round64_eval[where e = "-2"]) (simp_all add: rne_def power_int_minus)

lemma f64_sum_t2: "py_add (1 / 4) (1 / 4) = 1 / 2"
  unfolding py_add_def
  by (subst round64_eval[where e = "-1"]) (simp_all add: rne_def power_int_minus)

lemma f64_gini_t: "py_sub 1 (1 / 2) = 1 / 2"
  unfolding py_sub_def
  by (subst round64_eval[where e = "-1"]) (simp_all add: rne_def power_int_minus)

lemmas f64_tie = f64_div_1_2 f64_square_1_2 f64_sum_t1 f64_sum_t2 f64_gini_t

lemma tie_gini:
  "gini_impurity tie_tree model_weight_equal 2 [''A''] = Inr (1 / 2)"
  "gini_impurity tie_tree model_weight_equal 2 [''B''] = Inr (1 / 2)"
  by (simp_all add: gini_impurity_def output_weights_def tie_getitem tie_weight
      py_sum_Cons f64_tie)

theorem gini_tie_break_witness:
  "gini_selector tie_tree [] model_weight_equal = Inr [''B''] \<and>
   gini_impurity tie_tree model_weight_equal 2 [''A''] = Inr (1 / 2) \<and>
   gini_impurity tie_tree model_weight_equal 2 [''B''] = Inr (1 / 2) \<and>
   len (subtree tie_tree [''A'']) = 5 \<and>
   len (subtree tie_tree [''B'']) \<le> len (subtree tie_tree [''A''])"
proof -
  have e1: "gini_selector tie_tree [] model_weight_equal = Inr [''B'']"
    by (simp add: gini_selector_def tie_getitem tie_weight tie_gini tie_len Let_def)
  have e2: "2 = tree_weight (subtree tie_tree []) (model_mapping tie_tree) model_weight_equal"
    by (simp add: tie_weight)
  have e5: "[''A''] \<in> set (children tie_tree [])"
    using tie_getitem(1) getitem_Inr_children by fastforce
  have "len (subtree tie_tree [''B'']) \<le> len (subtree tie_tree [''A''])"
    using gini_tie_break[OF e1 e2] tie_gini e5 by fastforce
  then show ?thesis using e1 tie_gini tie_len by simp
qed

section \<open>An exact tie that rounding hides\<close>























section \<open>Gini impurity against entropy\<close>

text \<open>Eight models of equal weight: input \<open>A\<close> splits them four and four, input \<open>B\<close>
  six, one and one.\<close>

definition ranking_tree :: model_tree where
  "ranking_tree =
     \<lparr>nodes = [([], {1, 2, 3, 4, 5, 6, 7, 8}),
               ([''A''], {1, 2, 3, 4, 5, 6, 7, 8}),
               ([''A'', ''0''], {1, 2, 3, 4}), ([''A'', ''1''], {5, 6, 7, 8}),
               ([''B''], {1, 2, 3, 4, 5, 6, 7, 8}),
               ([''B'', ''0''], {1, 2, 3, 4, 5, 6}), ([''B'', ''1''], {7}), ([''B'', ''2''], {8})],
      root = [], model_mapping = no_implementations\<rparr>"

lemma ranking_getitem:
  "getitem ranking_tree [] = Inr [[''A''], [''B'']]"
  "getitem ranking_tree [''A''] = Inr [[''A'', ''0''], [''A'', ''1'']]"
  "getitem ranking_tree [''B''] = Inr [[''B'', ''0''], [''B'', ''1''], [''B'', ''2'']]"
  by (simp_all add: ranking_tree_def getitem_def children_def)

lemma ranking_weight:
  "tree_weight (subtree ranking_tree []) (model_mapping ranking_tree) model_weight_equal = 8"
  "tree_weight (subtree ranking_tree [''A'', ''0'']) (model_mapping ranking_tree) model_weight_equal = 4"
  "tree_weight (subtree ranking_tree [''A'', ''1'']) (model_mapping ranking_tree) model_weight_equal = 4"
  "tree_weight (subtree ranking_tree [''B'', ''0'']) (model_mapping ranking_tree) model_weight_equal = 6"
  "tree_weight (subtree ranking_tree [''B'', ''1'']) (model_mapping ranking_tree) model_weight_equal = 1"
  "tree_weight (subtree ranking_tree [''B'', ''2'']) (model_mapping ranking_tree) model_weight_equal = 1"
  by (simp_all add: ranking_tree_def tree_weight_def subtree_def models_def model_weight_equal_def)

lemma f64_div_4_8: "py_div 4 8 = Inr (1 / 2)"
  unfolding py_div_def
  by (subst round64_eval[where e = "-1"]) (simp_all add: rne_def power_int_minus)

lemma f64_div_6_8: "py_div 6 8 = Inr (3 / 4)"
  unfolding py_div_def
  by (subst round64_eval[where e = "-1"]) (simp_all add: rne_def power_int_minus)

lemma f64_div_1_8: "py_div 1 8 = Inr (1 / 8)"
  unfolding py_div_def
  by (subst round64_eval[where e = "-3"]) (simp_all add: rne_def power_int_minus)

lemma f64_square_4_8: "py_square (1 / 2) = 1 / 4"
  unfolding py_square_def
  by (subst round64_eval[where e = "-2"]) (simp_all add: rne_def power_int_minus)

lemma f64_square_6_8: "py_square (3 / 4) = 9 / 16"
  unfolding py_square_def
  by (subst round64_eval[where e = "-1"]) (simp_all add: rne_def power_int_minus)

lemma f64_square_1_8: "py_square (1 / 8) = 1 / 64"
  unfolding py_square_def
  by (subst round64_eval[where e = "-6"]) (simp_all add: rne_def power_int_minus)

lemma f64_sum_ra1: "py_add 0 (1 / 4) = 1 / 4"
  unfolding py_add_def
  by (subst round64_eval[where e = "-2"]) (simp_all add: rne_def power_int_minus)

lemma f64_sum_ra2: "py_add (1 / 4) (1 / 4) = 1 / 2"
  unfolding py_add_def
  by (subst round64_eval[where e = "-1"]) (simp_all add: rne_def power_int_minus)

lemma f64_gini_ra: "py_sub 1 (1 / 2) = 1 / 2"
  unfolding py_sub_def
  by (subst round64_eval[where e = "-1"]) (simp_all add: rne_def power_int_minus)

lemma f64_sum_rb1: "py_add 0 (9 / 16) = 9 / 16"
  unfolding py_add_def
  by (subst round64_eval[where e = "-1"]) (simp_all add: rne_def power_int_minus)

lemma f64_sum_rb2: "py_add (9 / 16) (1 / 64) = 37 / 64"
  unfolding py_add_def
  by (subst round64_eval[where e = "-1"]) (simp_all add: rne_def power_int_minus)

lemma f64_sum_rb3: "py_add (37 / 64) (1 / 64) = 19 / 32"
  unfolding py_add_def
  by (subst round64_eval[where e = "-1"]) (simp_all add: rne_def power_int_minus)

lemma f64_gini_rb: "py_sub 1 (19 / 32) = 13 / 32"
  unfolding py_sub_def
  by (subst round64_eval[where e = "-2"]) (simp_all add: rne_def power_int_minus)

lemmas f64_ranking = f64_div_4_8 f64_div_6_8 f64_div_1_8 f64_square_4_8 f64_square_6_8 f64_square_1_8 f64_sum_ra1 f64_sum_ra2 f64_gini_ra f64_sum_rb1 f64_sum_rb2 f64_sum_rb3 f64_gini_rb

lemma ranking_gini:
  "gini_impurity ranking_tree model_weight_equal 8 [''A''] = Inr (1 / 2)"
  "gini_impurity ranking_tree model_weight_equal 8 [''B''] = Inr (13 / 32)"
  by (simp_all add: gini_impurity_def output_weights_def ranking_getitem ranking_weight
      py_sum_Cons f64_ranking)

lemma ranking_entropy:
  "entropy_metric ranking_tree model_weight_equal 8 [''A''] =
     Inr (- py_add (py_add 0 (py_mul (1 / 2) (round64 (ln (1 / 2)))))
                   (py_mul (1 / 2) (round64 (ln (1 / 2)))))"
  "entropy_metric ranking_tree model_weight_equal 8 [''B''] =
     Inr (- py_add (py_add (py_add 0 (py_mul (3 / 4) (round64 (ln (3 / 4)))))
                           (py_mul (1 / 8) (round64 (ln (1 / 8)))))
                   (py_mul (1 / 8) (round64 (ln (1 / 8)))))"
  by (simp_all add: entropy_metric_def output_weights_def py_log_def ranking_getitem
      ranking_weight py_sum_Cons f64_div_4_8 f64_div_6_8 f64_div_1_8)


lemma ln_facts:
  "0 < ln (2::real)" "ln (2::real) < 1" "0 < ln (3::real)" "ln (3::real) \<le> 2 * ln 2"
  "3 * ln (3::real) + 5 / 32 \<le> 5 * ln 2"
  "ln (1 / 2 :: real) = - ln 2" "ln (3 / 4 :: real) = ln 3 - 2 * ln 2"
  "ln (1 / 8 :: real) = - 3 * ln 2"
proof -
  show "0 < ln (2::real)" by simp
  show "ln (2::real) < 1" by (rule ln_2_less_1)
  show "0 < ln (3::real)" by simp
  have l4: "ln (4::real) = 2 * ln 2" using ln_realpow[of 2 2] by simp
  have l8: "ln (8::real) = 3 * ln 2" using ln_realpow[of 2 3] by simp
  have l27: "ln (27::real) = 3 * ln 3" using ln_realpow[of 3 3] by simp
  have l32: "ln (32::real) = 5 * ln 2" using ln_realpow[of 2 5] by simp
  have "ln (3::real) \<le> ln 4" by simp
  then show "ln (3::real) \<le> 2 * ln 2" using l4 by simp
  have "ln (27 / 32 :: real) \<le> 27 / 32 - 1" by (rule ln_le_minus_one) simp
  moreover have "ln (27 / 32 :: real) = ln 27 - ln 32" using ln_div[of 27 32] by simp
  ultimately show "3 * ln (3::real) + 5 / 32 \<le> 5 * ln 2" using l27 l32 by simp
  have "ln (1 / 2 :: real) = ln 1 - ln 2" using ln_div[of 1 2] by simp
  then show "ln (1 / 2 :: real) = - ln 2" by simp
  have "ln (3 / 4 :: real) = ln 3 - ln 4" using ln_div[of 3 4] by simp
  then show "ln (3 / 4 :: real) = ln 3 - 2 * ln 2" using l4 by simp
  have "ln (1 / 8 :: real) = ln 1 - ln 8" using ln_div[of 1 8] by simp
  then show "ln (1 / 8 :: real) = - 3 * ln 2" using l8 by simp
qed

lemma round64_near:
  assumes "- B \<le> x" and "x \<le> B"
  shows "x - B / 9007199254740992 \<le> round64 x"
    and "round64 x \<le> x + B / 9007199254740992"
proof -
  have "\<bar>x\<bar> \<le> B" using assms by (simp add: abs_le_iff)
  then have "\<bar>round64 x - x\<bar> \<le> B / 2 ^ 53" by (rule round64_close)
  then have c: "\<bar>round64 x - x\<bar> \<le> B / 9007199254740992" by simp
  show "x - B / 9007199254740992 \<le> round64 x" using c by linarith
  show "round64 x \<le> x + B / 9007199254740992" using c by linarith
qed

lemma ranking_entropy_order:
  "py_add (py_add (py_add 0 (py_mul (3 / 4) (round64 (ln (3 / 4)))))
                  (py_mul (1 / 8) (round64 (ln (1 / 8)))))
          (py_mul (1 / 8) (round64 (ln (1 / 8))))
   < py_add (py_add 0 (py_mul (1 / 2) (round64 (ln (1 / 2)))))
            (py_mul (1 / 2) (round64 (ln (1 / 2))))"
proof -
  define la where "la = round64 (ln (1 / 2))"
  define ta where "ta = round64 (1 / 2 * la)"
  define sa1 where "sa1 = round64 (0 + ta)"
  define sa2 where "sa2 = round64 (sa1 + ta)"
  define l1 where "l1 = round64 (ln (3 / 4))"
  define t1 where "t1 = round64 (3 / 4 * l1)"
  define l2 where "l2 = round64 (ln (1 / 8))"
  define t2 where "t2 = round64 (1 / 8 * l2)"
  define sb1 where "sb1 = round64 (0 + t1)"
  define sb2 where "sb2 = round64 (sb1 + t2)"
  define sb3 where "sb3 = round64 (sb2 + t2)"
  note ln = ln_facts
  have la: "ln (1 / 2) - 1 / 9007199254740992 \<le> la"
    "la \<le> ln (1 / 2) + 1 / 9007199254740992"
    unfolding la_def by (rule round64_near; use ln in linarith)+
  have ta: "1 / 2 * la - 1 / 9007199254740992 \<le> ta"
    "ta \<le> 1 / 2 * la + 1 / 9007199254740992"
    unfolding ta_def by (rule round64_near; use ln la in linarith)+
  have sa1: "(0 + ta) - 1 / 9007199254740992 \<le> sa1"
    "sa1 \<le> (0 + ta) + 1 / 9007199254740992"
    unfolding sa1_def by (rule round64_near; use ln la ta in linarith)+
  have sa2: "(sa1 + ta) - 2 / 9007199254740992 \<le> sa2"
    "sa2 \<le> (sa1 + ta) + 2 / 9007199254740992"
    unfolding sa2_def by (rule round64_near; use ln la ta sa1 in linarith)+
  have l1: "ln (3 / 4) - 2 / 9007199254740992 \<le> l1"
    "l1 \<le> ln (3 / 4) + 2 / 9007199254740992"
    unfolding l1_def by (rule round64_near; use ln in linarith)+
  have t1: "3 / 4 * l1 - 2 / 9007199254740992 \<le> t1"
    "t1 \<le> 3 / 4 * l1 + 2 / 9007199254740992"
    unfolding t1_def by (rule round64_near; use ln l1 in linarith)+
  have l2: "ln (1 / 8) - 3 / 9007199254740992 \<le> l2"
    "l2 \<le> ln (1 / 8) + 3 / 9007199254740992"
    unfolding l2_def by (rule round64_near; use ln in linarith)+
  have t2: "1 / 8 * l2 - 1 / 9007199254740992 \<le> t2"
    "t2 \<le> 1 / 8 * l2 + 1 / 9007199254740992"
    unfolding t2_def by (rule round64_near; use ln l2 in linarith)+
  have sb1: "(0 + t1) - 2 / 9007199254740992 \<le> sb1"
    "sb1 \<le> (0 + t1) + 2 / 9007199254740992"
    unfolding sb1_def by (rule round64_near; use ln l1 t1 in linarith)+
  have sb2: "(sb1 + t2) - 3 / 9007199254740992 \<le> sb2"
    "sb2 \<le> (sb1 + t2) + 3 / 9007199254740992"
    unfolding sb2_def by (rule round64_near; use ln l1 t1 l2 t2 sb1 in linarith)+
  have sb3: "(sb2 + t2) - 4 / 9007199254740992 \<le> sb3"
    "sb3 \<le> (sb2 + t2) + 4 / 9007199254740992"
    unfolding sb3_def by (rule round64_near; use ln l1 t1 l2 t2 sb1 sb2 in linarith)+
  have "sb3 < sa2"
    using ln la ta sa1 sa2 l1 t1 l2 t2 sb1 sb2 sb3 by linarith
  then show ?thesis
    by (simp add: py_add_def py_mul_def la_def ta_def sa1_def sa2_def l1_def t1_def l2_def
        t2_def sb1_def sb2_def sb3_def)
qed

text \<open>
  C2: on this tree no two candidates have the same impurity (1/2 for \<open>A\<close>, 13/32 for
  \<open>B\<close>, computed without rounding error), the Gini selector returns \<open>A\<close>, and the
  entropy selector returns \<open>B\<close>, whose entropy is the greater: the two selectors do
  not yield the same decision.
\<close>

theorem gini_and_entropy_differ:
  "gini_impurity ranking_tree model_weight_equal 8 [''A''] = Inr (1 / 2) \<and>
   gini_impurity ranking_tree model_weight_equal 8 [''B''] = Inr (13 / 32) \<and>
   gini_selector ranking_tree [] model_weight_equal = Inr [''A''] \<and>
   entropy_selector ranking_tree [] model_weight_equal = Inr [''B'']"
proof -
  have g: "gini_selector ranking_tree [] model_weight_equal = Inr [''A'']"
    by (simp add: gini_selector_def ranking_getitem ranking_weight ranking_gini Let_def)
  have e: "entropy_selector ranking_tree [] model_weight_equal = Inr [''B'']"
    using ranking_entropy_order
    by (simp add: entropy_selector_def ranking_getitem ranking_weight ranking_entropy)
  show ?thesis using g e ranking_gini by simp
qed

section \<open>Rounds shrink the candidate set\<close>

text \<open>
  The trees that learning produces: every node has one record, the tree holds the parent
  of each of its nodes, the models of a node are among those of the root, and the
  responses to one input carry disjoint sets of models (a model answers an input in one
  way). A response node is a node at an even, positive depth.
\<close>

definition unique_paths :: "model_tree \<Rightarrow> bool" where
  "unique_paths t = distinct (map fst (nodes t))"

definition prefix_closed :: "model_tree \<Rightarrow> bool" where
  "prefix_closed t =
     (\<forall>p \<in> set (map fst (nodes t)). \<forall>q \<in> set (prefixes p). q \<in> set (map fst (nodes t)))"

definition responses_disjoint :: "model_tree \<Rightarrow> bool" where
  "responses_disjoint t =
     (\<forall>(p, m) \<in> set (nodes t). \<forall>(q, n) \<in> set (nodes t).
        p \<noteq> q \<and> p \<noteq> [] \<and> butlast p = butlast q \<and> even (length p) \<longrightarrow> m \<inter> n = {})"

definition well_formed :: "model_tree \<Rightarrow> bool" where
  "well_formed t =
     (root t = [] \<and> unique_paths t \<and> prefix_closed t \<and> responses_disjoint t \<and>
      (\<forall>(p, m) \<in> set (nodes t). m \<subseteq> models t))"

text \<open>What holds of a tree pruned to the models \<open>L\<close> of a leaf, and of what condensing
  leaves of it.\<close>

definition pruned_to :: "model set \<Rightarrow> model_tree \<Rightarrow> bool" where
  "pruned_to L t =
     (unique_paths t \<and> prefix_closed t \<and> responses_disjoint t \<and>
      (\<forall>(p, m) \<in> set (nodes t). m \<noteq> {} \<and> m \<subseteq> L \<and> (p = [] \<longrightarrow> m = L)))"

text \<open>Both mutations delete the subtrees below some nodes.\<close>

definition without_subtrees :: "path list \<Rightarrow> (path \<times> model set) list \<Rightarrow> (path \<times> model set) list" where
  "without_subtrees ds xs = filter (\<lambda>(p, ms). \<not> (\<exists>d \<in> set ds. prefix d p)) xs"

lemma prefix_closed_iff:
  "prefix_closed t \<longleftrightarrow>
   (\<forall>p \<in> set (map fst (nodes t)). \<forall>q. prefix q p \<longrightarrow> q \<in> set (map fst (nodes t)))"
  by (simp add: prefix_closed_def in_set_prefixes Ball_def)

lemma without_subtrees_subset: "set (without_subtrees ds xs) \<subseteq> set xs"
  by (auto simp: without_subtrees_def)

lemma without_subtrees_distinct:
  "distinct (map fst xs) \<Longrightarrow> distinct (map fst (without_subtrees ds xs))"
  by (simp add: without_subtrees_def distinct_map_filter)

lemma without_subtrees_keys:
  "p \<in> set (map fst (without_subtrees ds xs)) \<longleftrightarrow>
   p \<in> set (map fst xs) \<and> \<not> (\<exists>d \<in> set ds. prefix d p)"
  by (force simp: without_subtrees_def)

lemma without_subtrees_prefix_closed:
  assumes "\<forall>p \<in> set (map fst xs). \<forall>q. prefix q p \<longrightarrow> q \<in> set (map fst xs)"
  shows "\<forall>p \<in> set (map fst (without_subtrees ds xs)). \<forall>q. prefix q p \<longrightarrow>
           q \<in> set (map fst (without_subtrees ds xs))"
proof (intro ballI allI impI)
  fix p q
  assume p: "p \<in> set (map fst (without_subtrees ds xs))" and qp: "prefix q p"
  have pk: "p \<in> set (map fst xs)" and pn: "\<not> (\<exists>d \<in> set ds. prefix d p)"
    using p without_subtrees_keys by blast+
  have "q \<in> set (map fst xs)" using assms pk qp by blast
  moreover have "\<not> (\<exists>d \<in> set ds. prefix d q)"
    using pn qp prefix_order.order_trans by blast
  ultimately show "q \<in> set (map fst (without_subtrees ds xs))"
    using without_subtrees_keys by blast
qed

lemma nodes_update: "nodes (t\<lparr>nodes := xs\<rparr>) = xs"
  by simp

lemma prune_models_nodes:
  "nodes (prune_models t removed) =
     without_subtrees
       (map fst (filter (\<lambda>(p, ms). ms = {}) (map (\<lambda>(p, ms). (p, ms - removed)) (nodes t))))
       (map (\<lambda>(p, ms). (p, ms - removed)) (nodes t))"
  by (simp only: prune_models_def without_subtrees_def Let_def nodes_update)

lemma condense_step_nodes:
  "nodes (condense_step t) =
     (if length (leaves t) \<le> 1 then []
      else without_subtrees (filter (mergeable t) (map fst (nodes t))) (nodes t))"
  by (simp only: condense_step_def without_subtrees_def Let_def nodes_update if_distrib[of nodes])


lemma pruned_to_without_subtrees:
  assumes "pruned_to L t" and "nodes t' = without_subtrees ds (nodes t)"
  shows "pruned_to L t'"
proof -
  have sub: "set (nodes t') \<subseteq> set (nodes t)"
    using assms(2) without_subtrees_subset by simp
  have "unique_paths t'"
    using assms without_subtrees_distinct by (simp add: pruned_to_def unique_paths_def)
  moreover have "prefix_closed t'"
    using assms without_subtrees_prefix_closed[of "nodes t" ds]
    by (simp add: pruned_to_def prefix_closed_iff)
  moreover have "responses_disjoint t'"
    using assms(1) sub unfolding pruned_to_def responses_disjoint_def by blast
  moreover have "\<forall>(p, m) \<in> set (nodes t'). m \<noteq> {} \<and> m \<subseteq> L \<and> (p = [] \<longrightarrow> m = L)"
    using assms(1) sub unfolding pruned_to_def by blast
  ultimately show ?thesis by (simp add: pruned_to_def)
qed

lemma pruned_to_empty: "nodes t = [] \<Longrightarrow> pruned_to L t"
  by (simp add: pruned_to_def unique_paths_def prefix_closed_def responses_disjoint_def)

lemma condense_step_pruned_to: "pruned_to L t \<Longrightarrow> pruned_to L (condense_step t)"
proof (cases "length (leaves t) \<le> 1")
  case True
  then have "nodes (condense_step t) = []" by (simp add: condense_step_nodes)
  then show ?thesis by (rule pruned_to_empty)
next
  case False
  assume p: "pruned_to L t"
  have "nodes (condense_step t) =
          without_subtrees (filter (mergeable t) (map fst (nodes t))) (nodes t)"
    using False by (simp add: condense_step_nodes)
  with p show ?thesis by (rule pruned_to_without_subtrees)
qed

lemma condense_rounds_pruned_to: "pruned_to L t \<Longrightarrow> pruned_to L (condense_rounds n t)"
  by (induction n arbitrary: t) (simp_all add: condense_step_pruned_to)

lemma condense_pruned_to: "pruned_to L t \<Longrightarrow> pruned_to L (condense t)"
  unfolding condense_def by (rule condense_rounds_pruned_to)

lemma prune_models_pruned_to:
  assumes "well_formed t" and "(leaf, L) \<in> set (nodes t)"
  shows "pruned_to L (prune_models t (models t - L))"
proof -
  let ?f = "\<lambda>(p, ms). (p, ms - (models t - L))"
  let ?xs = "map ?f (nodes t)"
  let ?ds = "map fst (filter (\<lambda>(p, ms). ms = {}) ?xs)"
  let ?t' = "prune_models t (models t - L)"
  have n: "nodes ?t' = without_subtrees ?ds ?xs" by (rule prune_models_nodes)
  have keys: "map fst ?xs = map fst (nodes t)" by (simp add: case_prod_beta comp_def)
  have orig: "\<exists>m0. (p, m0) \<in> set (nodes t) \<and> m = m0 - (models t - L)"
    if "(p, m) \<in> set (nodes ?t')" for p m
  proof -
    have "(p, m) \<in> set ?xs" using that n without_subtrees_subset by fastforce
    then show ?thesis by auto
  qed
  have "distinct (map fst (nodes t))" using assms by (simp add: well_formed_def unique_paths_def)
  then have "distinct (map fst ?xs)" by (simp only: keys)
  then have "unique_paths ?t'"
    unfolding unique_paths_def n by (rule without_subtrees_distinct)
  moreover have "prefix_closed ?t'"
  proof -
    have "\<forall>p \<in> set (map fst ?xs). \<forall>q. prefix q p \<longrightarrow> q \<in> set (map fst ?xs)"
      using assms unfolding keys by (simp add: well_formed_def prefix_closed_iff)
    then show ?thesis unfolding prefix_closed_iff n by (rule without_subtrees_prefix_closed)
  qed
  moreover have "responses_disjoint ?t'"
    unfolding responses_disjoint_def
  proof (intro ballI, clarify)
    fix p m q k
    assume pm: "(p, m) \<in> set (nodes ?t')" and qk: "(q, k) \<in> set (nodes ?t')"
      and c: "p \<noteq> q" "p \<noteq> []" "butlast p = butlast q" "even (length p)"
    obtain m0 where m0: "(p, m0) \<in> set (nodes t)" "m = m0 - (models t - L)"
      using orig[OF pm] by blast
    obtain k0 where k0: "(q, k0) \<in> set (nodes t)" "k = k0 - (models t - L)"
      using orig[OF qk] by blast
    have "m0 \<inter> k0 = {}"
      using assms m0(1) k0(1) c unfolding well_formed_def responses_disjoint_def by blast
    then show "m \<inter> k = {}" using m0(2) k0(2) by blast
  qed
  moreover have "\<forall>(p, m) \<in> set (nodes ?t'). m \<noteq> {} \<and> m \<subseteq> L \<and> (p = [] \<longrightarrow> m = L)"
  proof (intro ballI, clarify)
    fix p m
    assume pm: "(p, m) \<in> set (nodes ?t')"
    obtain m0 where m0: "(p, m0) \<in> set (nodes t)" "m = m0 - (models t - L)"
      using orig[OF pm] by blast
    have "m0 \<subseteq> models t" using assms m0(1) unfolding well_formed_def by blast
    then have sub: "m \<subseteq> L" using m0(2) by blast
    have "m \<noteq> {}"
    proof
      assume e: "m = {}"
      have "(p, m) \<in> set ?xs" using pm n without_subtrees_subset by fastforce
      then have "p \<in> set ?ds" using e by force
      moreover have "p \<in> set (map fst (without_subtrees ?ds ?xs))" using pm n by force
      ultimately show False using without_subtrees_keys[of p ?ds ?xs] by blast
    qed
    moreover have "m = L" if "p = []"
    proof -
      have "distinct (map fst (nodes t))"
        using assms(1) by (simp add: well_formed_def unique_paths_def)
      then have "map_of (nodes t) p = Some m0" using m0(1) by (rule map_of_is_SomeI)
      then have "models t = m0" using assms(1) that by (simp add: well_formed_def models_def)
      moreover have "L \<subseteq> models t" using assms unfolding well_formed_def by blast
      ultimately show ?thesis using m0(2) by blast
    qed
    ultimately show "m \<noteq> {} \<and> m \<subseteq> L \<and> (p = [] \<longrightarrow> m = L)" using sub by simp
  qed
  ultimately show ?thesis by (simp add: pruned_to_def)
qed


lemma filter_all_or_shorter: "filter P xs = xs \<or> length (filter P xs) < length xs"
proof (cases "\<forall>x \<in> set xs. P x")
  case True
  then show ?thesis by simp
next
  case False
  then obtain x where "x \<in> set xs" "\<not> P x" by blast
  then have "length (filter P xs) < length xs" by (rule length_filter_less)
  then show ?thesis by (rule disjI2)
qed

lemma condense_step_shape: "condense_step t = t\<lparr>nodes := nodes (condense_step t)\<rparr>"
  by (simp add: condense_step_def Let_def)

lemma condense_step_same_nodes:
  assumes "nodes (condense_step t) = nodes t"
  shows "condense_step t = t"
proof -
  have "condense_step t = t\<lparr>nodes := nodes (condense_step t)\<rparr>" by (rule condense_step_shape)
  also have "\<dots> = t\<lparr>nodes := nodes t\<rparr>" by (simp only: assms)
  also have "\<dots> = t" by simp
  finally show ?thesis .
qed

lemma condense_step_shrinks:
  "nodes (condense_step t) = nodes t \<or> length (nodes (condense_step t)) < length (nodes t)"
proof (cases "length (leaves t) \<le> 1")
  case True
  then have "nodes (condense_step t) = []" by (simp add: condense_step_nodes)
  then show ?thesis by (cases "nodes t") simp_all
next
  case False
  then show ?thesis
    using filter_all_or_shorter[of _ "nodes t"]
    by (simp add: condense_step_nodes without_subtrees_def)
qed

lemma condense_rounds_fixed: "condense_step t = t \<Longrightarrow> condense_rounds n t = t"
  by (induction n) simp_all

lemma condense_rounds_settles:
  "length (nodes t) \<le> n \<Longrightarrow> condense_step (condense_rounds n t) = condense_rounds n t"
proof (induction n arbitrary: t)
  case 0
  then have "nodes t = []" by simp
  then have "nodes (condense_step t) = nodes t"
    by (simp add: condense_step_nodes leaves_def)
  then show ?case by (simp add: condense_step_same_nodes)
next
  case (Suc n)
  show ?case
  proof (cases "nodes (condense_step t) = nodes t")
    case True
    then have s: "condense_step t = t" by (rule condense_step_same_nodes)
    then have "condense_rounds n t = t" by (rule condense_rounds_fixed)
    then show ?thesis using s by simp
  next
    case False
    then have "length (nodes (condense_step t)) < length (nodes t)"
      using condense_step_shrinks[of t] by simp
    then have "length (nodes (condense_step t)) \<le> n" using Suc.prems by simp
    then show ?thesis using Suc.IH by simp
  qed
qed

lemma condense_settled: "condense_step (condense t) = condense t"
  unfolding condense_def by (rule condense_rounds_settles) simp

lemma settled_not_mergeable:
  assumes "condense_step t = t" and "nodes t \<noteq> []" and "p \<in> set (map fst (nodes t))"
  shows "\<not> mergeable t p"
proof
  assume m: "mergeable t p"
  have n: "nodes (condense_step t) = nodes t" using assms(1) by simp
  have "\<not> length (leaves t) \<le> 1"
  proof
    assume "length (leaves t) \<le> 1"
    then have "nodes (condense_step t) = []" by (simp add: condense_step_nodes)
    then show False using n assms(2) by simp
  qed
  then have "nodes t = without_subtrees (filter (mergeable t) (map fst (nodes t))) (nodes t)"
    using n by (simp add: condense_step_nodes)
  then have "p \<in> set (map fst (without_subtrees (filter (mergeable t) (map fst (nodes t))) (nodes t)))"
    using assms(3) by simp
  then have "\<not> (\<exists>d \<in> set (filter (mergeable t) (map fst (nodes t))). prefix d p)"
    using without_subtrees_keys by blast
  moreover have "p \<in> set (filter (mergeable t) (map fst (nodes t)))" using m assms(3) by simp
  ultimately show False by blast
qed


lemma children_iff:
  "q \<in> set (children t p) \<longleftrightarrow> q \<in> set (map fst (nodes t)) \<and> q \<noteq> [] \<and> butlast q = p"
  by (auto simp: children_def)

lemma children_distinct: "unique_paths t \<Longrightarrow> distinct (children t p)"
  by (simp add: unique_paths_def children_def)

lemma descendant_child:
  assumes "prefix_closed t" and "q \<in> set (map fst (nodes t))" and "prefix p q" and "p \<noteq> q"
  shows "\<exists>c \<in> set (children t p). prefix c q"
proof -
  from assms(3) obtain zs where q: "q = p @ zs" by (auto simp: prefix_def)
  then have "zs \<noteq> []" using assms(4) by auto
  then obtain x zs' where zs: "zs = x # zs'" by (cases zs) auto
  have pre: "prefix (p @ [x]) q" using q zs by simp
  then have "p @ [x] \<in> set (map fst (nodes t))"
    using assms(1,2) unfolding prefix_closed_iff by blast
  then have "p @ [x] \<in> set (children t p)" by (simp add: children_iff)
  then show ?thesis using pre by blast
qed

lemma subtree_keys:
  "q \<in> set (map fst (nodes (subtree t p))) \<longleftrightarrow> q \<in> set (map fst (nodes t)) \<and> prefix p q"
  by (force simp: subtree_def)

lemma subtree_unique_paths: "unique_paths t \<Longrightarrow> unique_paths (subtree t p)"
  by (simp add: unique_paths_def subtree_def distinct_map_filter)

lemma single_filter_length:
  assumes "distinct xs" and "a \<in> set xs" and "P a" and "\<forall>x \<in> set xs. P x \<longrightarrow> x = a"
  shows "length (filter P xs) = 1"
proof -
  have "{x \<in> set xs. P x} = {a}" using assms(2,3,4) by blast
  then have s: "set (filter P xs) = {a}" by simp
  have "distinct (filter P xs)" using assms(1) by simp
  then have "length (filter P xs) = card (set (filter P xs))" by (simp only: distinct_card)
  also have "\<dots> = card {a}" by (simp only: s)
  also have "\<dots> = 1" by simp
  finally show ?thesis .
qed

lemma only_child_mergeable:
  assumes u: "unique_paths t" and pc: "prefix_closed t"
    and c: "set (children t sn) = {leaf}" and l: "children t leaf = []"
    and o: "odd (length sn)"
  shows "mergeable t sn"
proof -
  have leaf: "leaf \<in> set (map fst (nodes t))" "leaf \<noteq> []" "butlast leaf = sn"
    using c children_iff[of leaf t sn] by auto
  have lc: "leaf \<in> set (children t sn)" using c by simp
  have len: "length leaf = Suc (length sn)" using lc by (rule children_length)
  have "leaf = sn @ [last leaf]" using lc by (rule children_snoc)
  then have pre: "prefix sn leaf" by (metis prefixI)
  have one: "length (children t sn) = 1"
  proof -
    have "distinct (children t sn)" using u by (rule children_distinct)
    then have "length (children t sn) = card (set (children t sn))" by (simp add: distinct_card)
    then show ?thesis using c by simp
  qed
  let ?S = "subtree t sn"
  have sn_key: "sn \<in> set (map fst (nodes t))"
    using pc leaf(1) pre unfolding prefix_closed_iff by blast
  have keysS: "q = sn \<or> q = leaf" if "q \<in> set (map fst (nodes ?S))" for q
  proof (rule ccontr)
    assume n: "\<not> (q = sn \<or> q = leaf)"
    have q: "q \<in> set (map fst (nodes t))" "prefix sn q" using that subtree_keys by blast+
    obtain c1 where c1: "c1 \<in> set (children t sn)" "prefix c1 q"
      using descendant_child[OF pc q(1) q(2)] n by blast
    then have "prefix leaf q" using c by simp
    then obtain c2 where "c2 \<in> set (children t leaf)"
      using descendant_child[OF pc q(1)] n by blast
    then show False using l by simp
  qed
  have leafS: "leaf \<in> set (map fst (nodes ?S))"
    using leaf(1) pre subtree_keys by blast
  have is_leaf_leaf: "is_leaf ?S leaf"
  proof -
    have "q \<notin> set (children ?S leaf)" for q
    proof
      assume qc: "q \<in> set (children ?S leaf)"
      then have k: "q \<in> set (map fst (nodes ?S))"
        using children_iff[of q ?S leaf] by simp
      have "length q = Suc (length leaf)" using qc by (rule children_length)
      moreover have "q = sn \<or> q = leaf" using k by (rule keysS)
      ultimately show False using len by auto
    qed
    then show ?thesis unfolding is_leaf_def by (cases "children ?S leaf") auto
  qed
  have not_leaf_sn: "\<not> is_leaf ?S sn"
  proof -
    have "leaf \<in> set (children ?S sn)" using leafS leaf(2,3) by (simp add: children_iff)
    then show ?thesis unfolding is_leaf_def by auto
  qed
  have "length (leaves ?S) = 1"
    unfolding leaves_def
  proof (rule single_filter_length[where a = leaf])
    show "distinct (map fst (nodes ?S))"
      using subtree_unique_paths[OF u] by (simp add: unique_paths_def)
    show "leaf \<in> set (map fst (nodes ?S))" by (rule leafS)
    show "is_leaf ?S leaf" by (rule is_leaf_leaf)
    show "\<forall>x \<in> set (map fst (nodes ?S)). is_leaf ?S x \<longrightarrow> x = leaf"
      using keysS not_leaf_sn by blast
  qed
  then show ?thesis using one o by (simp add: mergeable_def)
qed

lemma reset_tree: "reset tp w = (r, w1) \<Longrightarrow> tree w1 = tree w"
  by (auto simp: reset_def Let_def split: connector.splits prod.splits sum.splits)

lemma descent_loop_tree:
  assumes "descent_loop tp selector weight_function lvs w node = (Inr (Some leaf), w1)"
  shows "tree w1 = tree w"
proof -
  have "tree w1 = tree w"
  proof (rule descent_loop_preserves[where P = "\<lambda>v. tree v = tree w", OF assms])
    show "tree w = tree w" by simp
  next
    fix v n send_node r v1
    assume "tree v = tree w" and "send tp v (last send_node) = (Inr (Some r), v1)"
    then show "tree v1 = tree w" using send_tree by metis
  qed
  then show ?thesis .
qed

lemma descent_loop_leaf:
  "descent_loop tp selector weight_function lvs w node = (Inr (Some leaf), w1) \<Longrightarrow>
   even (length node) \<Longrightarrow>
   leaf \<in> set lvs \<and> even (length leaf) \<and> leaf \<noteq> []"
proof (induction tp selector weight_function lvs w node rule: descent_loop.induct)
  case (1 tp selector weight_function lvs w node)
  from "1.prems"(1) obtain send_node where
    sel: "select selector (tree w) node weight_function = Inr send_node"
    by (subst (asm) descent_loop.simps) (auto split: sum.splits)
  obtain r2 w2 where s: "send tp w (last send_node) = (r2, w2)"
    by (cases "send tp w (last send_node)")
  from "1.prems"(1) sel s obtain response cs where r2: "r2 = Inr (Some response)"
    and g: "getitem (tree w2) (send_node @ [response]) = Inr cs"
    by (subst (asm) descent_loop.simps) (auto simp: Let_def split: sum.splits option.splits)
  have "send_node \<in> set (children (tree w) node)" using sel by (rule select_child)
  then have "length send_node = Suc (length node)" by (rule children_length)
  then have ev: "even (length (send_node @ [response]))" using "1.prems"(2) by simp
  show ?case
  proof (cases "send_node @ [response] \<in> set lvs")
    case True
    then have "leaf = send_node @ [response]" using "1.prems"(1) sel s r2 g
      by (subst (asm) descent_loop.simps) simp
    then show ?thesis using True ev by simp
  next
    case False
    then have d: "descent_loop tp selector weight_function lvs w2 (send_node @ [response]) =
               (Inr (Some leaf), w1)"
      using "1.prems"(1) sel s r2 g by (subst (asm) descent_loop.simps) simp
    show ?thesis
      by (rule "1.IH"[OF sel s[symmetric] r2 refl refl g False d ev])
  qed
qed

lemma descent_leaf:
  assumes "descent tp selector weight_function w = (Inr (Some leaf), w1)"
  shows "leaf \<in> set (leaves (tree w)) \<and> even (length leaf) \<and> leaf \<noteq> [] \<and> tree w1 = tree w"
  using assms descent_loop_leaf[of tp selector weight_function "leaves (tree w)" w "[]" leaf w1]
    descent_loop_tree[of tp selector weight_function "leaves (tree w)" w "[]" leaf w1]
  by (simp add: descent_def)

lemma prune_models_root: "root (prune_models t removed) = root t"
  by (simp add: prune_models_def Let_def)

lemma condense_step_root: "root (condense_step t) = root t"
  by (simp add: condense_step_def Let_def)

lemma condense_rounds_root: "root (condense_rounds n t) = root t"
  by (induction n arbitrary: t) (simp_all add: condense_step_root)

lemma condense_root: "root (condense t) = root t"
  by (simp add: condense_def condense_rounds_root)

lemma pruned_to_well_formed:
  assumes "pruned_to L t" and "root t = []"
  shows "well_formed t"
proof -
  have u: "unique_paths t" and pc: "prefix_closed t" and rd: "responses_disjoint t"
    using assms(1) by (simp_all add: pruned_to_def)
  have "m \<subseteq> models t" if pm: "(p, m) \<in> set (nodes t)" for p m
  proof -
    have "p \<in> set (map fst (nodes t))" using pm by force
    moreover have "prefix [] p" by simp
    ultimately have "[] \<in> set (map fst (nodes t))" using pc unfolding prefix_closed_iff by blast
    then obtain r where r: "([], r) \<in> set (nodes t)" by force
    have "r = L" using assms(1) r unfolding pruned_to_def by blast
    have "distinct (map fst (nodes t))" using u by (simp add: unique_paths_def)
    then have "map_of (nodes t) [] = Some r" using r by (rule map_of_is_SomeI)
    then have "models t = L" using assms(2) \<open>r = L\<close> by (simp add: models_def)
    moreover have "m \<subseteq> L" using assms(1) pm unfolding pruned_to_def by blast
    ultimately show ?thesis by simp
  qed
  then show ?thesis using u pc rd assms(2) by (auto simp: well_formed_def)
qed

lemma settled_leaf_strict:
  assumes pt: "pruned_to L t" and fx: "condense_step t = t" and ne: "nodes t \<noteq> []"
    and lf: "leaf \<in> set (leaves t)" and ev: "even (length leaf)" and nn: "leaf \<noteq> []"
    and m: "map_of (nodes t) leaf = Some L'"
  shows "L' \<subset> L"
proof -
  have u: "unique_paths t" and pc: "prefix_closed t" and rd: "responses_disjoint t"
    using pt by (simp_all add: pruned_to_def)
  have mem: "(leaf, L') \<in> set (nodes t)" using m by (rule map_of_SomeD)
  have sub: "L' \<subseteq> L" using pt mem unfolding pruned_to_def by blast
  have "L' \<noteq> L"
  proof
    assume eq: "L' = L"
    let ?p = "butlast leaf"
    have leaf_key: "leaf \<in> set (map fst (nodes t))" using mem by force
    have lc: "leaf \<in> set (children t ?p)" using leaf_key nn by (simp add: children_iff)
    have other: "q = leaf" if q: "q \<in> set (children t ?p)" for q
    proof (rule ccontr)
      assume d: "q \<noteq> leaf"
      have qk: "q \<in> set (map fst (nodes t))" and qb: "butlast q = ?p"
        using q by (simp_all add: children_iff)
      obtain S where S: "(q, S) \<in> set (nodes t)" using qk by force
      have "leaf \<noteq> q \<and> leaf \<noteq> [] \<and> butlast leaf = butlast q \<and> even (length leaf)"
        using d nn qb ev by simp
      then have "L' \<inter> S = {}"
        using rd mem S unfolding responses_disjoint_def by blast
      moreover have "S \<subseteq> L" and "S \<noteq> {}" using pt S unfolding pruned_to_def by blast+
      ultimately show False using eq by blast
    qed
    have only: "set (children t ?p) = {leaf}" using lc other by blast
    have nc: "children t leaf = []" using lf by (simp add: leaves_def is_leaf_def)
    have od: "odd (length ?p)" using ev nn by (cases leaf rule: rev_cases) simp_all
    have mg: "mergeable t ?p" by (rule only_child_mergeable[OF u pc only nc od])
    have "prefix ?p leaf" by (rule prefixeq_butlast)
    then have pk: "?p \<in> set (map fst (nodes t))"
      using pc leaf_key unfolding prefix_closed_iff by blast
    show False using settled_not_mergeable[OF fx ne pk] mg by simp
  qed
  then show ?thesis using sub by blast
qed

text \<open>
  C1, amended: on a well-formed tree, when a round of \<open>identify\<close> reaches a leaf with the
  models \<open>L\<close>, the tree pruned to \<open>L\<close> and condensed is not empty, and the next descent
  reaches a leaf with the models \<open>L'\<close>, then \<open>L'\<close> is a proper subset of \<open>L\<close>. The round
  goes on with a tree that is well-formed again, so the same holds of every later round.
\<close>

theorem rounds_shrink_candidates:
  assumes "well_formed (tree w)"
    and "descent tp selector weight_function w = (Inr (Some leaf), w1)"
    and "map_of (nodes (tree w1)) leaf = Some L"
    and "w3 = w1\<lparr>tree := condense (prune_models (tree w1) (models (tree w1) - L))\<rparr>"
    and "len (tree w3) \<noteq> 0"
    and "reset tp w3 = (Inr (), w4)"
    and "descent tp selector weight_function w4 = (Inr (Some leaf'), w5)"
    and "map_of (nodes (tree w5)) leaf' = Some L'"
  shows "L' \<subset> L \<and> well_formed (tree w4) \<and>
         identify_loop tp selector weight_function (Suc rounds) w =
         identify_loop tp selector weight_function rounds w4"
proof -
  let ?t = "condense (prune_models (tree w1) (models (tree w1) - L))"
  have t1: "tree w1 = tree w" using descent_leaf[OF assms(2)] by simp
  have wf1: "well_formed (tree w1)" using assms(1) t1 by simp
  have mem: "(leaf, L) \<in> set (nodes (tree w1))" using assms(3) by (rule map_of_SomeD)
  have "pruned_to L (prune_models (tree w1) (models (tree w1) - L))"
    using wf1 mem by (rule prune_models_pruned_to)
  then have pt: "pruned_to L ?t" by (rule condense_pruned_to)
  have t3: "tree w3 = ?t" using assms(4) by simp
  have t4: "tree w4 = ?t" using reset_tree[OF assms(6)] t3 by simp
  have fx: "condense_step ?t = ?t" by (rule condense_settled)
  have ne: "nodes ?t \<noteq> []" using assms(5) t3 by (simp add: len_def)
  have d2: "leaf' \<in> set (leaves (tree w4))" "even (length leaf')" "leaf' \<noteq> []"
    "tree w5 = tree w4"
    using descent_leaf[OF assms(7)] by simp_all
  have lf: "leaf' \<in> set (leaves ?t)" using d2(1) t4 by simp
  have m2: "map_of (nodes ?t) leaf' = Some L'" using assms(8) d2(4) t4 by simp
  have strict: "L' \<subset> L"
    by (rule settled_leaf_strict[OF pt fx ne lf d2(2) d2(3) m2])
  have "root ?t = root (tree w1)" by (simp add: condense_root prune_models_root)
  then have "root ?t = []" using wf1 by (simp add: well_formed_def)
  then have "well_formed ?t" using pt pruned_to_well_formed by blast
  then have wf4: "well_formed (tree w4)" using t4 by simp
  have w3': "w1\<lparr>tree := prune_models (tree w1) (models (tree w1) - L)\<rparr>
               \<lparr>tree := condense (prune_models (tree w1) (models (tree w1) - L))\<rparr> = w3"
    using assms(4) by simp
  have "identify_loop tp selector weight_function (Suc rounds) w =
        identify_loop tp selector weight_function rounds w4"
    using assms(2,3,6) w3' ne by (simp add: Let_def len_def)
  then show ?thesis using strict wf4 by simp
qed

lemma two_round_well_formed: "well_formed two_round_tree"
  by (simp add: well_formed_def unique_paths_def prefix_closed_def responses_disjoint_def
      models_def two_round_tree_def)

theorem rounds_shrink_candidates_witness:
  "({3} :: model set) \<subset> {2, 3} \<and>
   well_formed (two_round_tree\<lparr>nodes := [([], {2, 3}), ([''B''], {2, 3}),
                                          ([''B'', ''0''], {2}), ([''B'', ''1''], {3})]\<rparr>) \<and>
   identify_loop no_transport FirstSel model_weight_equal (Suc 1)
     \<lparr>tree = two_round_tree, connector = new_benchmark_connector 3, calls = []\<rparr> =
   identify_loop no_transport FirstSel model_weight_equal 1
     \<lparr>tree = two_round_tree\<lparr>nodes := [([], {2, 3}), ([''B''], {2, 3}),
                                          ([''B'', ''0''], {2}), ([''B'', ''1''], {3})]\<rparr>,
        connector = BenchmarkConnector
          \<lparr>target = 3, messages = [''A'', ''1'', ''RESET'', []], current_node = []\<rparr>,
        calls = [Send ''A'', Reset]\<rparr>"
proof -
  let ?t = "two_round_tree\<lparr>nodes := [([], {2, 3}), ([''B''], {2, 3}),
                                       ([''B'', ''0''], {2}), ([''B'', ''1''], {3})]\<rparr>"
  let ?wa = "\<lparr>tree = two_round_tree, connector = new_benchmark_connector 3, calls = []\<rparr>
               :: unit world"
  let ?wb = "\<lparr>tree = two_round_tree,
               connector = BenchmarkConnector
                 \<lparr>target = 3, messages = [''A'', ''1''], current_node = [''A'', ''1'']\<rparr>,
               calls = [Send ''A'']\<rparr> :: unit world"
  let ?wc = "?wb\<lparr>tree := condense (prune_models (tree ?wb) (models (tree ?wb) - {2, 3}))\<rparr>"
  let ?wd = "\<lparr>tree = ?t,
               connector = BenchmarkConnector
                 \<lparr>target = 3, messages = [''A'', ''1'', ''RESET'', []], current_node = []\<rparr>,
               calls = [Send ''A'', Reset]\<rparr> :: unit world"
  let ?we = "\<lparr>tree = ?t,
               connector = BenchmarkConnector
                 \<lparr>target = 3, messages = [''A'', ''1'', ''RESET'', [], ''B'', ''1''],
                    current_node = [''B'', ''1'']\<rparr>,
               calls = [Send ''A'', Reset, Send ''B'']\<rparr> :: unit world"
  have wf: "well_formed (tree ?wa)" using two_round_well_formed by simp
  have d1: "descent no_transport FirstSel model_weight_equal ?wa = (Inr (Some [''A'', ''1'']), ?wb)"
    by (simp add: descent_def always_first_selector_def connector_defs two_round_tree_def
        tree_defs Let_def)
  have m1: "map_of (nodes (tree ?wb)) [''A'', ''1''] = Some {2, 3}"
    by (simp add: two_round_tree_def)
  have t3: "condense (prune_models two_round_tree (models two_round_tree - {2, 3})) = ?t"
    by (simp add: two_round_tree_def tree_defs mutation_defs Let_def insert_Diff_if)
  have ne: "len (tree ?wc) \<noteq> 0" using t3 by (simp add: len_def)
  have rs: "reset no_transport ?wc = (Inr (), ?wd)"
    using t3 by (simp add: reset_def benchmark_reset_def Let_def)
  have d2: "descent no_transport FirstSel model_weight_equal ?wd = (Inr (Some [''B'', ''1'']), ?we)"
    by (simp add: descent_def always_first_selector_def connector_defs two_round_tree_def
        tree_defs Let_def)
  have m2: "map_of (nodes (tree ?we)) [''B'', ''1''] = Some {3}"
    by simp
  show ?thesis
    using rounds_shrink_candidates[OF wf d1 m1 refl ne rs d2 m2, of 1] by simp
qed

text \<open>A tree in which both responses to the input \<open>A\<close> carry both models.\<close>

definition shared_tree :: model_tree where
  "shared_tree =
     \<lparr>nodes = [([], {1, 2}), ([''A''], {1, 2}), ([''A'', ''0''], {1, 2}), ([''A'', ''1''], {1, 2})],
      root = [], model_mapping = no_implementations\<rparr>"

text \<open>
  The claim as stated fails: on this tree the first round ends at the leaf \<open>A\<close>, \<open>0\<close>
  with the models 1 and 2, pruning and condensing change nothing, and the second round
  ends at the same leaf with the same models.
\<close>

theorem round_keeps_candidates:
  "descent no_transport FirstSel model_weight_equal
     \<lparr>tree = shared_tree, connector = new_benchmark_connector 1, calls = []\<rparr> =
   (Inr (Some [''A'', ''0'']),
    \<lparr>tree = shared_tree,
       connector = BenchmarkConnector
         \<lparr>target = 1, messages = [''A'', ''0''], current_node = [''A'', ''0'']\<rparr>,
       calls = [Send ''A'']\<rparr>) \<and>
   map_of (nodes shared_tree) [''A'', ''0''] = Some {1, 2} \<and>
   condense (prune_models shared_tree (models shared_tree - {1, 2})) = shared_tree \<and>
   len shared_tree \<noteq> 0 \<and>
   reset no_transport
     \<lparr>tree = shared_tree,
        connector = BenchmarkConnector
          \<lparr>target = 1, messages = [''A'', ''0''], current_node = [''A'', ''0'']\<rparr>,
        calls = [Send ''A'']\<rparr> =
   (Inr (),
    \<lparr>tree = shared_tree,
       connector = BenchmarkConnector
         \<lparr>target = 1, messages = [''A'', ''0'', ''RESET'', []], current_node = []\<rparr>,
       calls = [Send ''A'', Reset]\<rparr>) \<and>
   descent no_transport FirstSel model_weight_equal
     \<lparr>tree = shared_tree,
        connector = BenchmarkConnector
          \<lparr>target = 1, messages = [''A'', ''0'', ''RESET'', []], current_node = []\<rparr>,
        calls = [Send ''A'', Reset]\<rparr> =
   (Inr (Some [''A'', ''0'']),
    \<lparr>tree = shared_tree,
       connector = BenchmarkConnector
         \<lparr>target = 1, messages = [''A'', ''0'', ''RESET'', [], ''A'', ''0''],
            current_node = [''A'', ''0'']\<rparr>,
       calls = [Send ''A'', Reset, Send ''A'']\<rparr>) \<and>
   identify_loop no_transport FirstSel model_weight_equal 2
     \<lparr>tree = shared_tree, connector = new_benchmark_connector 1, calls = []\<rparr> = None"
proof -
  have c: "condense (prune_models shared_tree (models shared_tree - {1, 2})) = shared_tree"
    by (simp add: shared_tree_def tree_defs mutation_defs Let_def)
  have d1: "descent no_transport FirstSel model_weight_equal
     \<lparr>tree = shared_tree, connector = new_benchmark_connector 1, calls = []\<rparr> =
   (Inr (Some [''A'', ''0'']),
    \<lparr>tree = shared_tree,
       connector = BenchmarkConnector
         \<lparr>target = 1, messages = [''A'', ''0''], current_node = [''A'', ''0'']\<rparr>,
       calls = [Send ''A'']\<rparr>)"
    by (simp add: descent_def always_first_selector_def connector_defs shared_tree_def
        tree_defs Let_def)
  have d2: "descent no_transport FirstSel model_weight_equal
     \<lparr>tree = shared_tree,
        connector = BenchmarkConnector
          \<lparr>target = 1, messages = [''A'', ''0'', ''RESET'', []], current_node = []\<rparr>,
        calls = [Send ''A'', Reset]\<rparr> =
   (Inr (Some [''A'', ''0'']),
    \<lparr>tree = shared_tree,
       connector = BenchmarkConnector
         \<lparr>target = 1, messages = [''A'', ''0'', ''RESET'', [], ''A'', ''0''],
            current_node = [''A'', ''0'']\<rparr>,
       calls = [Send ''A'', Reset, Send ''A'']\<rparr>)"
    by (simp add: descent_def always_first_selector_def connector_defs shared_tree_def
        tree_defs Let_def)
  have m: "map_of (nodes shared_tree) [''A'', ''0''] = Some {1, 2}"
    by (simp add: shared_tree_def)
  have n: "len shared_tree \<noteq> 0" by (simp add: shared_tree_def len_def)
  have r: "reset no_transport
     \<lparr>tree = shared_tree,
        connector = BenchmarkConnector
          \<lparr>target = 1, messages = [''A'', ''0''], current_node = [''A'', ''0'']\<rparr>,
        calls = [Send ''A'']\<rparr> =
   (Inr (),
    \<lparr>tree = shared_tree,
       connector = BenchmarkConnector
         \<lparr>target = 1, messages = [''A'', ''0'', ''RESET'', []], current_node = []\<rparr>,
       calls = [Send ''A'', Reset]\<rparr>)"
    by (simp add: reset_def benchmark_reset_def Let_def)
  have "identify_loop no_transport FirstSel model_weight_equal (Suc (Suc 0))
     \<lparr>tree = shared_tree, connector = new_benchmark_connector 1, calls = []\<rparr> = None"
    using n by (simp add: c d1 d2 m reset_def benchmark_reset_def Let_def del: One_nat_def)
  then have i: "identify_loop no_transport FirstSel model_weight_equal 2
     \<lparr>tree = shared_tree, connector = new_benchmark_connector 1, calls = []\<rparr> = None"
    by (simp only: numeral_2_eq_2)
  show ?thesis using c d1 d2 m n r i by simp
qed

end
